(* ===== verification/Prelude.thy ===== *)
theory Prelude
  imports Main
begin

text \<open>
  Shared infrastructure of the development: the named collections the component
  theories fill, and generic facts on lists that the invariant proofs of the queue
  use (zips of a growing step list with a growing output list, counts of filtered
  zips, numbered sublists).
\<close>

named_theorems queue_defs "definitions of the queue operations, unfolded to evaluate a concrete run"
named_theorems inv_defs "the parts of the queue invariant"
named_theorems text_defs "number printing and parsing, unfolded to evaluate a concrete text"

subsection \<open>Zipping a list that grows at the end\<close>

lemma zip_append_left_long [simp]:
  "length ys \<le> length xs \<Longrightarrow> zip (xs @ zs) ys = zip xs ys"
  by (simp add: zip_append1)

lemma zip_snoc_right:
  "length ys < length xs \<Longrightarrow> zip xs (ys @ [y]) = zip xs ys @ [(xs ! length ys, y)]"
proof (induction xs arbitrary: ys)
  case Nil
  then show ?case by simp
next
  case (Cons x xs)
  then show ?case by (cases ys) auto
qed

subsection \<open>Counting in a zip\<close>

lemma filter_zip_count_le:
  "length (filter (\<lambda>(x, y). P x \<and> Q y) (zip xs ys)) \<le> length (filter P xs)"
proof (induction xs arbitrary: ys)
  case Nil
  then show ?case by simp
next
  case (Cons x xs)
  show ?case
  proof (cases ys)
    case Nil
    then show ?thesis by simp
  next
    case (Cons y ys')
    with Cons.IH [of ys'] show ?thesis by auto
  qed
qed

text \<open>
  When the count of pairs is as large as the count of the left elements, every left
  element with \<open>P\<close> has a partner with \<open>Q\<close>.
\<close>

lemma filter_zip_count_eq:
  assumes "length (filter (\<lambda>(x, y). P x \<and> Q y) (zip xs ys)) = length (filter P xs)"
    and "k < length xs" and "P (xs ! k)"
  shows "k < length ys \<and> Q (ys ! k)"
  using assms
proof (induction xs arbitrary: ys k)
  case Nil
  then show ?case by simp
next
  case (Cons x xs)
  show ?case
  proof (cases ys)
    case Nil
    with Cons.prems(1) have "filter P (x # xs) = []" by simp
    moreover from Cons.prems(2) have "(x # xs) ! k \<in> set (x # xs)" by (rule nth_mem)
    ultimately show ?thesis using Cons.prems(3) by (metis filter_empty_conv)
  next
    case (Cons y ys')
    have le: "length (filter (\<lambda>(x, y). P x \<and> Q y) (zip xs ys')) \<le> length (filter P xs)"
      by (rule filter_zip_count_le)
    show ?thesis
    proof (cases k)
      case 0
      with Cons.prems \<open>ys = y # ys'\<close> le show ?thesis
        by (auto split: if_splits)
    next
      case (Suc j)
      from Cons.prems \<open>ys = y # ys'\<close> le
      have "length (filter (\<lambda>(x, y). P x \<and> Q y) (zip xs ys')) = length (filter P xs)"
        by (auto split: if_splits)
      with Cons.IH [of ys' j] Cons.prems Suc \<open>ys = y # ys'\<close> show ?thesis
        by simp
    qed
  qed
qed

subsection \<open>Numbered elements\<close>

text \<open>
  A list whose marked elements carry the numbers \<open>1, \<dots>, n\<close> in order: each number is at
  most \<open>n\<close>.
\<close>

lemma numbered_le:
  assumes "map f (filter P xs) = [1..<Suc n]" and "x \<in> set xs" and "P x"
  shows "f x \<le> n"
proof -
  from assms(2,3) have "f x \<in> set (map f (filter P xs))" by simp
  then have "f x \<in> set [1..<Suc n]" by (simp only: assms(1))
  then show ?thesis by auto
qed

subsection \<open>Removing the element at an index\<close>

lemma list_all_remove_nth:
  "list_all P xs \<Longrightarrow> list_all P (take k xs @ drop (Suc k) xs)"
  by (auto simp: list_all_iff dest: in_set_takeD in_set_dropD)

lemma filter_remove_nth_other:
  "k < length xs \<Longrightarrow> \<not> P (xs ! k) \<Longrightarrow> filter P (take k xs @ drop (Suc k) xs) = filter P xs"
  by (subst (2) id_take_nth_drop [of k xs]) simp_all

lemma filter_remove_nth_single:
  assumes "filter P xs = [y]" and "k < length xs" and "P (xs ! k)"
  shows "xs ! k = y \<and> filter P (take k xs @ drop (Suc k) xs) = []"
proof -
  have "filter P (take k xs) @ xs ! k # filter P (drop (Suc k) xs) = [y]"
    using assms by (metis filter.simps(2) filter_append id_take_nth_drop)
  then show ?thesis by (auto simp: append_eq_Cons_conv)
qed

end
