(* ===== verification/Queue_Types.thy ===== *)
theory Queue_Types
  imports Prelude
begin

text \<open>
  The data of \<open>AsyncChainQueue\<close> (src/src/app/queue/asyncChainQueue.ts).
  The class keeps one promise, \<open>pipeline\<close>, that every submission and every closure
  replaces by a promise chained onto the old one. The model unrolls that promise
  into the list of the steps appended to it, in order (field \<open>pipeline\<close>), the list
  of values the chain has settled to so far (field \<open>outputs\<close>: the initial value,
  then one entry per completed step), and the progress of the step the chain is
  at (field \<open>headPhase\<close>). The counters, the closed flag and the subscribers of the
  two RxJS subjects are the class's own fields. Promises handed to callers are
  \<open>future\<close>s that name a position of the chain.
\<close>

text \<open>A settled JavaScript promise: fulfilled with a value, or rejected.\<close>

datatype 'v settled = Fulfilled 'v | Rejected

text \<open>
  A step appended to \<open>this.pipeline\<close>: a task of \<open>pushFunctionToQueue\<close> (known
  arguments, \<open>createInputToTask\<close>, the synchronous \<open>callback\<close>, \<open>timeoutInMS\<close>), a task
  of \<open>pushPromiseToQueue\<close> (known arguments, \<open>createInputToTask\<close>, the asynchronous
  task, whose promise settles to \<open>Some\<close> outcome or never, \<open>None\<close>), or the barrier
  that \<open>closeQueue\<close> inserts, with its closure number.
\<close>

datatype (dead 'v, dead 'i, dead 'r) stage =
    FunctionTask 'r "'v \<Rightarrow> 'r \<Rightarrow> 'i" "'i \<Rightarrow> 'v" nat
  | PromiseTask 'r "'v \<Rightarrow> 'r \<Rightarrow> 'i" "'i \<Rightarrow> 'v settled option"
  | Closure nat

text \<open>
  Where the step at the head of the chain is: not yet reached (\<open>Idle\<close>), its
  \<open>setTimeout\<close> pending, its asynchronous task running on the given input, a barrier
  subscribed to \<open>openQueueSignal\<close>, or stalled for good (a step whose \<open>then\<close> has no
  rejection handler, reached by a rejected chain).
\<close>

datatype 'i phase = Idle | TimerPending | AwaitingPromise 'i | WaitingForOpen | Stalled

text \<open>
  A promise returned to a caller: a copy of the chain at a position (it settles as
  the chain does there), a drain request still subscribed to \<open>queueComplete\<close>, or a
  drain request that has fired and waits for the chain at a position (it resolves
  only with a fulfilled value: \<open>copyOfPipeline.then(s => resolve(s))\<close>).
\<close>

datatype future = Snapshot nat | DrainPending | DrainFired nat

record ('v, 'i, 'r) AsyncChainQueue =
  pipeline :: "('v, 'i, 'r) stage list"
  outputs :: "'v settled list"
  headPhase :: "'i phase"
  queueLength :: nat
  tasksComplete :: nat
  queueIsClosed :: bool
  numberOfClosures :: nat
  numberOfOpenings :: nat
  openSubscribers :: "nat list"
  drainWaiters :: "nat list"
  futures :: "future list"

type_synonym ('v, 'i, 'r) queue = "('v, 'i, 'r) AsyncChainQueue"

subsection \<open>Reading the state\<close>

fun is_task :: "('v, 'i, 'r) stage \<Rightarrow> bool" where
  "is_task (Closure n) = False"
| "is_task _ = True"

fun is_closure :: "('v, 'i, 'r) stage \<Rightarrow> bool" where
  "is_closure (Closure n) = True"
| "is_closure _ = False"

text \<open>
  A step whose \<open>then\<close> callbacks pass a rejection of the chain on: the plain \<open>then\<close>
  chain of \<open>pushPromiseToQueue\<close> (lines 48-51). The \<open>new Promise\<close> wrappers of
  \<open>pushFunctionToQueue\<close> (line 34) and \<open>closeQueue\<close> (line 99) subscribe to the chain
  with no rejection handler, so on a rejected chain they never settle.
\<close>

fun passes_rejection :: "('v, 'i, 'r) stage \<Rightarrow> bool" where
  "passes_rejection (PromiseTask a ci p) = True"
| "passes_rejection _ = False"

fun closure_no :: "('v, 'i, 'r) stage \<Rightarrow> nat" where
  "closure_no (Closure n) = n"
| "closure_no _ = 0"

fun is_fulfilled :: "'v settled \<Rightarrow> bool" where
  "is_fulfilled (Fulfilled v) = True"
| "is_fulfilled Rejected = False"

text \<open>A completed step that ran \<open>registerTaskCompletion\<close>: a task that fulfilled.\<close>

definition registers :: "('v, 'i, 'r) stage \<times> 'v settled \<Rightarrow> bool" where
  "registers p = (case p of (st, r) \<Rightarrow> is_task st \<and> is_fulfilled r)"

text \<open>Index of the step the chain is at, and the value the chain holds there.\<close>

definition position :: "('v, 'i, 'r) queue \<Rightarrow> nat" where
  "position q = length (outputs q) - 1"

definition current :: "('v, 'i, 'r) queue \<Rightarrow> 'v settled" where
  "current q = last (outputs q)"

definition IsClosed :: "('v, 'i, 'r) queue \<Rightarrow> bool" where
  "IsClosed q = queueIsClosed q"

lemma is_task_iff: "is_task st \<longleftrightarrow> \<not> is_closure st"
  by (cases st) auto

lemma registers_pair [simp]: "registers (st, r) \<longleftrightarrow> is_task st \<and> is_fulfilled r"
  by (simp add: registers_def)

text \<open>Only \<open>outputs\<close> moves the head of the chain.\<close>

lemma position_frame [simp]:
  "position (q\<lparr>pipeline := x0\<rparr>) = position q"
  "position (q\<lparr>headPhase := x1\<rparr>) = position q"
  "position (q\<lparr>queueLength := x2\<rparr>) = position q"
  "position (q\<lparr>tasksComplete := x3\<rparr>) = position q"
  "position (q\<lparr>queueIsClosed := x4\<rparr>) = position q"
  "position (q\<lparr>numberOfClosures := x5\<rparr>) = position q"
  "position (q\<lparr>numberOfOpenings := x6\<rparr>) = position q"
  "position (q\<lparr>openSubscribers := x7\<rparr>) = position q"
  "position (q\<lparr>drainWaiters := x8\<rparr>) = position q"
  "position (q\<lparr>futures := x9\<rparr>) = position q"
  by (simp_all add: position_def)

lemma current_frame [simp]:
  "current (q\<lparr>pipeline := x0\<rparr>) = current q"
  "current (q\<lparr>headPhase := x1\<rparr>) = current q"
  "current (q\<lparr>queueLength := x2\<rparr>) = current q"
  "current (q\<lparr>tasksComplete := x3\<rparr>) = current q"
  "current (q\<lparr>queueIsClosed := x4\<rparr>) = current q"
  "current (q\<lparr>numberOfClosures := x5\<rparr>) = current q"
  "current (q\<lparr>numberOfOpenings := x6\<rparr>) = current q"
  "current (q\<lparr>openSubscribers := x7\<rparr>) = current q"
  "current (q\<lparr>drainWaiters := x8\<rparr>) = current q"
  "current (q\<lparr>futures := x9\<rparr>) = current q"
  by (simp_all add: current_def)

lemma position_outputs_update [simp]: "position (q\<lparr>outputs := rs\<rparr>) = length rs - 1"
  by (simp add: position_def)

lemma current_outputs_update [simp]: "current (q\<lparr>outputs := rs\<rparr>) = last rs"
  by (simp add: current_def)

end
