(* ===== verification/Chain_Spec.thy ===== *)
theory Chain_Spec
  imports Queue_Types
begin

text \<open>
  The abstract specification of the chain: what value each step of \<open>pipeline\<close>
  settles to, given the value of the step before it, once it settles at all. It is
  the sequential composition that the promise chain promises, with the scheduling
  (timers, the asynchronous tasks, the gate) left out. \<open>stage_result\<close> is \<open>None\<close>
  where the step never settles: a step that hangs on a rejected predecessor, or an
  asynchronous task whose promise never settles. \<open>chain_eval\<close> folds it over the
  steps and stops at the first step that never settles.
\<close>

fun stage_result :: "('v, 'i, 'r) stage \<Rightarrow> 'v settled \<Rightarrow> 'v settled option" where
  "stage_result (FunctionTask a ci cb t) (Fulfilled x) = Some (Fulfilled (cb (ci x a)))"
| "stage_result (FunctionTask a ci cb t) Rejected = None"
| "stage_result (PromiseTask a ci p) (Fulfilled x) = p (ci x a)"
| "stage_result (PromiseTask a ci p) Rejected = Some Rejected"
| "stage_result (Closure n) (Fulfilled x) = Some (Fulfilled x)"
| "stage_result (Closure n) Rejected = None"

fun chain_eval :: "'v settled \<Rightarrow> ('v, 'i, 'r) stage list \<Rightarrow> 'v settled list" where
  "chain_eval r [] = []"
| "chain_eval r (st # sts) =
     (case stage_result st r of None \<Rightarrow> [] | Some r' \<Rightarrow> r' # chain_eval r' sts)"

text \<open>
  The whole history of the chain: the initial value followed by the value of each
  step that settles.
\<close>

definition chain_trace :: "'v settled \<Rightarrow> ('v, 'i, 'r) stage list \<Rightarrow> 'v settled list" where
  "chain_trace r sts = r # chain_eval r sts"

text \<open>
  Chaining is local: a list of values in which each value is the result of the
  step before it applied to its predecessor is a prefix of the chain's history.
  This is the bridge from the step-by-step execution to the specification.
\<close>

definition chained :: "('v, 'i, 'r) stage list \<Rightarrow> 'v settled list \<Rightarrow> bool" where
  "chained sts rs \<longleftrightarrow> (\<forall>k. Suc k < length rs \<longrightarrow> stage_result (sts ! k) (rs ! k) = Some (rs ! Suc k))"

lemma chained_prefix:
  assumes "chained sts rs" and "rs \<noteq> []" and "length rs \<le> Suc (length sts)"
  shows "rs = take (length rs) (chain_trace (hd rs) sts)"
  using assms
proof (induction sts arbitrary: rs)
  case Nil
  then show ?case by (cases rs) (auto simp: chain_trace_def)
next
  case (Cons st sts)
  obtain r rs' where rs: "rs = r # rs'" using Cons.prems(2) by (cases rs) auto
  show ?case
  proof (cases rs')
    case Nil
    with rs show ?thesis by (simp add: chain_trace_def)
  next
    case (Cons r' rs'')
    from Cons.prems(1) rs \<open>rs' = r' # rs''\<close> have step: "stage_result st r = Some r'"
      by (auto simp: chained_def)
    from Cons.prems(1) rs have "chained sts rs'"
      by (auto simp: chained_def)
    moreover from Cons.prems(3) rs have "length rs' \<le> Suc (length sts)" by simp
    ultimately have "rs' = take (length rs') (chain_trace (hd rs') sts)"
      using Cons.IH \<open>rs' = r' # rs''\<close> by blast
    with rs step \<open>rs' = r' # rs''\<close> show ?thesis
      by (simp add: chain_trace_def)
  qed
qed

lemma chained_snoc:
  assumes "chained sts rs" and "rs \<noteq> []" and "length rs \<le> length sts"
    and "stage_result (sts ! (length rs - 1)) (last rs) = Some r"
  shows "chained sts (rs @ [r])"
  unfolding chained_def
proof (intro allI impI)
  fix k assume k: "Suc k < length (rs @ [r])"
  show "stage_result (sts ! k) ((rs @ [r]) ! k) = Some ((rs @ [r]) ! Suc k)"
  proof (cases "Suc k < length rs")
    case True
    with assms(1) show ?thesis by (simp add: chained_def nth_append)
  next
    case False
    with k have "k = length rs - 1" by simp
    with assms(2,4) show ?thesis by (simp add: nth_append last_conv_nth)
  qed
qed

lemma chained_append_stage [simp]:
  "length rs \<le> Suc (length sts) \<Longrightarrow> chained (sts @ [st]) rs \<longleftrightarrow> chained sts rs"
  by (auto simp: chained_def nth_append)

text \<open>Steps appended later do not change the values of the steps before them.\<close>

lemma chain_eval_append_nth:
  "n < length xs \<Longrightarrow> n < length (chain_eval r (xs @ ys)) \<Longrightarrow>
   n < length (chain_eval r xs) \<and> chain_eval r (xs @ ys) ! n = chain_eval r xs ! n"
proof (induction xs arbitrary: r n)
  case (Cons x xs)
  then show ?case by (cases n) (auto split: option.splits)
qed simp

lemma chain_trace_append_nth:
  "n \<le> length xs \<Longrightarrow> n < length (chain_trace r (xs @ ys)) \<Longrightarrow>
   n < length (chain_trace r xs) \<and> chain_trace r (xs @ ys) ! n = chain_trace r xs ! n"
  by (cases n) (simp_all add: chain_trace_def chain_eval_append_nth)

end
