(* ===== verification/Gate.thy ===== *)
theory Gate
  imports Chain_Spec
begin

text \<open>
  The close/reopen gate of \<open>AsyncChainQueue\<close>: \<open>closeQueue\<close> (lines 91-110),
  \<open>openQueue\<close> (lines 82-89) and the continuation a barrier runs when the chain
  reaches it (lines 100-106). The counters \<open>numberOfClosures\<close> and
  \<open>numberOfOpenings\<close> decide whether a barrier passes at once; otherwise it waits for
  the next emission of \<open>openQueueSignal\<close>. The lemmas here are about the gate alone:
  the relation the two counters keep with the closed flag, idempotence of
  \<open>closeQueue\<close>, and what one call of \<open>openQueue\<close> does.
\<close>

subsection \<open>Operations\<close>

text \<open>
  \<open>closeQueue\<close>: a no-op when already closed; otherwise the next closure number is
  allocated and a barrier carrying it is appended to the chain.
\<close>

definition closeQueue :: "('v, 'i, 'r) queue \<Rightarrow> ('v, 'i, 'r) queue" where
  "closeQueue q =
     (if queueIsClosed q then q
      else let n = Suc (numberOfClosures q)
           in q\<lparr>numberOfClosures := n, pipeline := pipeline q @ [Closure n],
                queueIsClosed := True\<rparr>)"

text \<open>
  \<open>openQueueSignal.next()\<close>: every barrier that reached the head has subscribed; the
  one still waiting, if any, resolves with the value it received. Subscribers that
  already resolved do nothing.
\<close>

definition openQueueSignal :: "('v, 'i, 'r) queue \<Rightarrow> ('v, 'i, 'r) queue" where
  "openQueueSignal q =
     (case headPhase q of
        WaitingForOpen \<Rightarrow> q\<lparr>outputs := outputs q @ [last (outputs q)], headPhase := Idle\<rparr>
      | _ \<Rightarrow> q)"

definition openQueue :: "('v, 'i, 'r) queue \<Rightarrow> ('v, 'i, 'r) queue" where
  "openQueue q =
     (let q1 = (if numberOfOpenings q \<le> numberOfClosures q
                then q\<lparr>numberOfOpenings := Suc (numberOfOpenings q)\<rparr> else q)
      in (openQueueSignal q1)\<lparr>queueIsClosed := False\<rparr>)"

text \<open>
  The barrier's continuation, run when the chain reaches barrier \<open>n\<close> with a
  fulfilled value: it passes the value on when \<open>n \<le> numberOfOpenings\<close>, and in every
  case subscribes to \<open>openQueueSignal\<close> (the subscription is never removed).
\<close>

definition closureReached :: "nat \<Rightarrow> ('v, 'i, 'r) queue \<Rightarrow> ('v, 'i, 'r) queue" where
  "closureReached n q =
     (let q1 = q\<lparr>openSubscribers := openSubscribers q @ [n]\<rparr>
      in if n \<le> numberOfOpenings q then q1\<lparr>outputs := outputs q @ [last (outputs q)]\<rparr>
         else q1\<lparr>headPhase := WaitingForOpen\<rparr>)"

declare closeQueue_def [queue_defs] openQueueSignal_def [queue_defs]
  openQueue_def [queue_defs] closureReached_def [queue_defs]

subsection \<open>The counters and the closed flag\<close>

text \<open>
  The gate invariant: openings are at most one ahead of closures; while the queue
  is open, closures do not exceed openings; while it is closed, closures are equal
  to openings or one ahead.
\<close>

definition gate_ok :: "('v, 'i, 'r) queue \<Rightarrow> bool" where
  "gate_ok q \<longleftrightarrow>
     numberOfOpenings q \<le> Suc (numberOfClosures q) \<and>
     (if queueIsClosed q
      then numberOfOpenings q \<le> numberOfClosures q \<and> numberOfClosures q \<le> Suc (numberOfOpenings q)
      else numberOfClosures q \<le> numberOfOpenings q)"

declare gate_ok_def [inv_defs]

lemma closeQueue_closed [simp]: "queueIsClosed q \<Longrightarrow> closeQueue q = q"
  by (simp add: closeQueue_def)

lemma closeQueue_open:
  "\<not> queueIsClosed q \<Longrightarrow>
   closeQueue q = q\<lparr>numberOfClosures := Suc (numberOfClosures q),
                    pipeline := pipeline q @ [Closure (Suc (numberOfClosures q))],
                    queueIsClosed := True\<rparr>"
  by (simp add: closeQueue_def)

lemma closeQueue_sets_closed [simp]: "queueIsClosed (closeQueue q)"
  by (simp add: closeQueue_def)

lemma closeQueue_frame [simp]:
  "outputs (closeQueue q) = outputs q"
  "headPhase (closeQueue q) = headPhase q"
  "queueLength (closeQueue q) = queueLength q"
  "tasksComplete (closeQueue q) = tasksComplete q"
  "numberOfOpenings (closeQueue q) = numberOfOpenings q"
  "openSubscribers (closeQueue q) = openSubscribers q"
  "drainWaiters (closeQueue q) = drainWaiters q"
  "futures (closeQueue q) = futures q"
  by (simp_all add: closeQueue_def Let_def)

lemma closeQueue_pipeline:
  "pipeline (closeQueue q) =
     (if queueIsClosed q then pipeline q else pipeline q @ [Closure (Suc (numberOfClosures q))])"
  by (simp add: closeQueue_def Let_def)

lemma closeQueue_closures:
  "numberOfClosures (closeQueue q) =
     (if queueIsClosed q then numberOfClosures q else Suc (numberOfClosures q))"
  by (simp add: closeQueue_def Let_def)

lemma closeQueue_pipeline_prefix: "\<exists>zs. pipeline (closeQueue q) = pipeline q @ zs"
  by (auto simp: closeQueue_pipeline)

lemma openQueueSignal_frame [simp]:
  "pipeline (openQueueSignal q) = pipeline q"
  "queueLength (openQueueSignal q) = queueLength q"
  "tasksComplete (openQueueSignal q) = tasksComplete q"
  "queueIsClosed (openQueueSignal q) = queueIsClosed q"
  "numberOfClosures (openQueueSignal q) = numberOfClosures q"
  "numberOfOpenings (openQueueSignal q) = numberOfOpenings q"
  "openSubscribers (openQueueSignal q) = openSubscribers q"
  "drainWaiters (openQueueSignal q) = drainWaiters q"
  "futures (openQueueSignal q) = futures q"
  by (simp_all add: openQueueSignal_def split: phase.splits)

lemma openQueue_frame [simp]:
  "pipeline (openQueue q) = pipeline q"
  "queueLength (openQueue q) = queueLength q"
  "tasksComplete (openQueue q) = tasksComplete q"
  "queueIsClosed (openQueue q) = False"
  "numberOfClosures (openQueue q) = numberOfClosures q"
  "openSubscribers (openQueue q) = openSubscribers q"
  "drainWaiters (openQueue q) = drainWaiters q"
  "futures (openQueue q) = futures q"
  by (simp_all add: openQueue_def Let_def)

lemma openQueue_openings:
  "numberOfOpenings (openQueue q) =
     (if numberOfOpenings q \<le> numberOfClosures q then Suc (numberOfOpenings q) else numberOfOpenings q)"
  by (simp add: openQueue_def Let_def)

lemma openQueue_outputs:
  "outputs (openQueue q) =
     (if headPhase q = WaitingForOpen then outputs q @ [last (outputs q)] else outputs q)"
  by (simp add: openQueue_def openQueueSignal_def Let_def split: phase.splits)

lemma openQueue_phase:
  "headPhase (openQueue q) = (if headPhase q = WaitingForOpen then Idle else headPhase q)"
  by (simp add: openQueue_def openQueueSignal_def Let_def split: phase.splits)

lemma closureReached_frame [simp]:
  "pipeline (closureReached n q) = pipeline q"
  "queueLength (closureReached n q) = queueLength q"
  "tasksComplete (closureReached n q) = tasksComplete q"
  "queueIsClosed (closureReached n q) = queueIsClosed q"
  "numberOfClosures (closureReached n q) = numberOfClosures q"
  "numberOfOpenings (closureReached n q) = numberOfOpenings q"
  "openSubscribers (closureReached n q) = openSubscribers q @ [n]"
  "drainWaiters (closureReached n q) = drainWaiters q"
  "futures (closureReached n q) = futures q"
  by (simp_all add: closureReached_def Let_def)

lemma closureReached_outputs:
  "outputs (closureReached n q) =
     (if n \<le> numberOfOpenings q then outputs q @ [last (outputs q)] else outputs q)"
  by (simp add: closureReached_def Let_def)

lemma closureReached_phase:
  "headPhase (closureReached n q) = (if n \<le> numberOfOpenings q then headPhase q else WaitingForOpen)"
  by (simp add: closureReached_def Let_def)

lemma gate_ok_closeQueue: "gate_ok q \<Longrightarrow> gate_ok (closeQueue q)"
  by (cases "queueIsClosed q") (auto simp: gate_ok_def closeQueue_open)

lemma gate_ok_openQueue: "gate_ok q \<Longrightarrow> gate_ok (openQueue q)"
  by (auto simp: gate_ok_def openQueue_openings split: if_splits)

subsection \<open>Properties of the gate\<close>

text \<open>
  C9 (functional). Closing is idempotent: \<open>closeQueue\<close> on a queue it has just
  closed changes nothing, so two calls with no \<open>openQueue\<close> between them insert
  exactly one barrier and leave the queue closed.
\<close>

theorem closeQueue_idempotent: "closeQueue (closeQueue q) = closeQueue q"
  by simp

text \<open>
  C10 (functional). Open before close: when the opening counter is ahead of the
  closure counter, \<open>closeQueue\<close> appends a barrier that the chain passes without
  waiting, whenever it reaches it (openings never decrease), passing the value on
  unchanged.
\<close>

theorem closeQueue_after_open_passes:
  assumes "\<not> queueIsClosed (q :: ('v, 'i, 'r) queue)" and "numberOfClosures q < numberOfOpenings q"
  shows "\<exists>n. pipeline (closeQueue q) = pipeline q @ [Closure n] \<and>
    (\<forall>r :: ('v, 'i, 'r) queue. numberOfOpenings (closeQueue q) \<le> numberOfOpenings r \<longrightarrow>
        outputs (closureReached n r) = outputs r @ [last (outputs r)] \<and>
        headPhase (closureReached n r) = headPhase r)"
  using assms
  by (auto simp: closeQueue_open closureReached_outputs closureReached_phase)

theorem closeQueue_after_open_passes_witness:
  "pipeline (closeQueue \<lparr>pipeline = [] :: (int, int, unit) stage list, outputs = [Fulfilled 0],
      headPhase = Idle, queueLength = 0, tasksComplete = 0, queueIsClosed = False,
      numberOfClosures = 0, numberOfOpenings = 1, openSubscribers = [], drainWaiters = [],
      futures = []\<rparr>) = [Closure 1] \<and>
   outputs (closureReached 1 \<lparr>pipeline = [Closure 1] :: (int, int, unit) stage list,
      outputs = [Fulfilled 0], headPhase = Idle, queueLength = 0, tasksComplete = 0,
      queueIsClosed = True, numberOfClosures = 1, numberOfOpenings = 1, openSubscribers = [],
      drainWaiters = [], futures = []\<rparr>) = [Fulfilled 0, Fulfilled 0]"
  using closeQueue_after_open_passes [of "\<lparr>pipeline = [] :: (int, int, unit) stage list,
      outputs = [Fulfilled 0], headPhase = Idle, queueLength = 0, tasksComplete = 0,
      queueIsClosed = False, numberOfClosures = 0, numberOfOpenings = 1, openSubscribers = [],
      drainWaiters = [], futures = []\<rparr>"]
  by (auto simp: closeQueue_def)

end
