(* ===== verification/Completion.thy ===== *)
theory Completion
  imports Gate
begin

text \<open>
  The completion tracker and the two halting methods of \<open>AsyncChainQueue\<close>:
  \<open>registerTaskCompletion\<close> (lines 112-116) counts a finished task and emits
  \<open>taskComplete\<close>; \<open>queueComplete\<close> (line 11) is that subject filtered by
  \<open>queueLength === tasksComplete\<close>, and each pending drain request is a \<open>take(1)\<close>
  subscription to it (lines 71-76). \<open>closeQueueAndGetFinalResult\<close> (lines 54-58) and
  \<open>getFinalResultAndCloseWhenAllTasksComplete\<close> (lines 61-79) hand out a future and
  close the queue. Futures are numbered by their place in the \<open>futures\<close> list; a
  method that returns a promise returns that number.
\<close>

subsection \<open>Drain subscribers\<close>

text \<open>
  The subscribers of \<open>queueComplete\<close> fire in subscription order, each on the same
  emission: \<open>take(1)\<close> removes the subscription, the callback copies the chain as it is
  at that moment, closes the queue, and resolves with the copy. The second
  subscriber's copy therefore already contains the barrier the first one appended.
\<close>

fun fireDrainWaiters :: "nat list \<Rightarrow> ('v, 'i, 'r) queue \<Rightarrow> ('v, 'i, 'r) queue" where
  "fireDrainWaiters [] q = q"
| "fireDrainWaiters (w # ws) q =
     fireDrainWaiters ws
       (closeQueue (q\<lparr>drainWaiters := ws,
                       futures := (futures q)[w := DrainFired (length (pipeline q))]\<rparr>))"

definition registerTaskCompletion :: "('v, 'i, 'r) queue \<Rightarrow> ('v, 'i, 'r) queue" where
  "registerTaskCompletion q =
     (let q1 = q\<lparr>tasksComplete := Suc (tasksComplete q)\<rparr>
      in if queueLength q1 = tasksComplete q1
         then fireDrainWaiters (drainWaiters q1) q1
         else q1)"

subsection \<open>Halting methods\<close>

text \<open>
  \<open>closeQueueAndGetFinalResult\<close>: the returned promise is the chain as it was before
  the barrier was added.
\<close>

definition closeQueueAndGetFinalResult ::
  "('v, 'i, 'r) queue \<Rightarrow> ('v, 'i, 'r) queue \<times> nat" where
  "closeQueueAndGetFinalResult q =
     (let n = length (pipeline q); q1 = closeQueue q
      in (q1\<lparr>futures := futures q1 @ [Snapshot n]\<rparr>, length (futures q1)))"

text \<open>
  \<open>getFinalResultAndCloseWhenAllTasksComplete\<close>: when every submitted task has
  completed, copy the chain, close, and adopt the copy; otherwise subscribe to
  \<open>queueComplete\<close>.
\<close>

definition getFinalResultAndCloseWhenAllTasksComplete ::
  "('v, 'i, 'r) queue \<Rightarrow> ('v, 'i, 'r) queue \<times> nat" where
  "getFinalResultAndCloseWhenAllTasksComplete q =
     (if queueLength q = tasksComplete q
      then let n = length (pipeline q); q1 = closeQueue q
           in (q1\<lparr>futures := futures q1 @ [Snapshot n]\<rparr>, length (futures q1))
      else (q\<lparr>futures := futures q @ [DrainPending],
              drainWaiters := drainWaiters q @ [length (futures q)]\<rparr>,
            length (futures q)))"

text \<open>
  What a caller holding future \<open>w\<close> observes: \<open>None\<close> while it is pending, otherwise
  how it settled. A fired drain request that meets a rejected chain never settles.
\<close>

definition future_result :: "('v, 'i, 'r) queue \<Rightarrow> nat \<Rightarrow> 'v settled option" where
  "future_result q w =
     (if w < length (futures q) then
        (case futures q ! w of
           Snapshot n \<Rightarrow> if n < length (outputs q) then Some (outputs q ! n) else None
         | DrainPending \<Rightarrow> None
         | DrainFired n \<Rightarrow>
             if n < length (outputs q) \<and> is_fulfilled (outputs q ! n)
             then Some (outputs q ! n) else None)
      else None)"

declare registerTaskCompletion_def [queue_defs] closeQueueAndGetFinalResult_def [queue_defs]
  getFinalResultAndCloseWhenAllTasksComplete_def [queue_defs] future_result_def [queue_defs]

subsection \<open>What the operations leave unchanged\<close>

lemma fireDrainWaiters_frame [simp]:
  "outputs (fireDrainWaiters ws q) = outputs q"
  "headPhase (fireDrainWaiters ws q) = headPhase q"
  "queueLength (fireDrainWaiters ws q) = queueLength q"
  "tasksComplete (fireDrainWaiters ws q) = tasksComplete q"
  "numberOfOpenings (fireDrainWaiters ws q) = numberOfOpenings q"
  "openSubscribers (fireDrainWaiters ws q) = openSubscribers q"
  "length (futures (fireDrainWaiters ws q)) = length (futures q)"
  by (induction ws arbitrary: q) simp_all

lemma fireDrainWaiters_waiters:
  "drainWaiters (fireDrainWaiters ws q) = (if ws = [] then drainWaiters q else [])"
  by (induction ws arbitrary: q) simp_all

lemma fireDrainWaiters_closed:
  "queueIsClosed q \<Longrightarrow> queueIsClosed (fireDrainWaiters ws q)"
  by (induction ws arbitrary: q) simp_all

lemma fireDrainWaiters_nonempty_closed:
  "ws \<noteq> [] \<Longrightarrow> queueIsClosed (fireDrainWaiters ws q)"
  by (cases ws) (simp_all add: fireDrainWaiters_closed)

lemma fireDrainWaiters_gate_ok:
  "gate_ok q \<Longrightarrow> gate_ok (fireDrainWaiters ws q)"
proof (induction ws arbitrary: q)
  case Nil
  then show ?case by simp
next
  case (Cons w ws)
  have "gate_ok (q\<lparr>drainWaiters := ws,
                     futures := (futures q)[w := DrainFired (length (pipeline q))]\<rparr>)"
    using Cons.prems by (simp add: gate_ok_def)
  then show ?case using Cons.IH by (simp add: gate_ok_closeQueue)
qed

lemma registerTaskCompletion_frame [simp]:
  "outputs (registerTaskCompletion q) = outputs q"
  "headPhase (registerTaskCompletion q) = headPhase q"
  "queueLength (registerTaskCompletion q) = queueLength q"
  "tasksComplete (registerTaskCompletion q) = Suc (tasksComplete q)"
  "numberOfOpenings (registerTaskCompletion q) = numberOfOpenings q"
  "openSubscribers (registerTaskCompletion q) = openSubscribers q"
  "length (futures (registerTaskCompletion q)) = length (futures q)"
  by (simp_all add: registerTaskCompletion_def Let_def)

lemma closeQueueAndGetFinalResult_frame [simp]:
  "pipeline (fst (closeQueueAndGetFinalResult q)) = pipeline (closeQueue q)"
  "outputs (fst (closeQueueAndGetFinalResult q)) = outputs q"
  "headPhase (fst (closeQueueAndGetFinalResult q)) = headPhase q"
  "numberOfOpenings (fst (closeQueueAndGetFinalResult q)) = numberOfOpenings q"
  "queueIsClosed (fst (closeQueueAndGetFinalResult q))"
  by (simp_all add: closeQueueAndGetFinalResult_def Let_def)

lemma getFinalResultAndCloseWhenAllTasksComplete_frame [simp]:
  "pipeline (fst (getFinalResultAndCloseWhenAllTasksComplete q)) =
     (if queueLength q = tasksComplete q then pipeline (closeQueue q) else pipeline q)"
  "outputs (fst (getFinalResultAndCloseWhenAllTasksComplete q)) = outputs q"
  "headPhase (fst (getFinalResultAndCloseWhenAllTasksComplete q)) = headPhase q"
  "numberOfOpenings (fst (getFinalResultAndCloseWhenAllTasksComplete q)) = numberOfOpenings q"
  by (simp_all add: getFinalResultAndCloseWhenAllTasksComplete_def Let_def)

end
