(* ===== verification/Chain.thy ===== *)
theory Chain
  imports Completion
begin

text \<open>
  The chain of \<open>AsyncChainQueue\<close>: the constructor (lines 18-24), the two
  submission methods \<open>pushFunctionToQueue\<close> (lines 31-43) and
  \<open>pushPromiseToQueue\<close> (lines 46-52), and the progress of the chain between calls:
  the \<open>then\<close> callbacks that run when the step at the head is reached, the
  \<open>setTimeout\<close> of a synchronous task firing, and the promise of an asynchronous task
  settling. Each progress operation is \<open>None\<close> when it is not enabled in the state.
\<close>

subsection \<open>Construction and submission\<close>

definition new_queue :: "'v \<Rightarrow> bool \<Rightarrow> ('v, 'i, 'r) queue" where
  "new_queue initialValue startQueueClosed =
     (let q = \<lparr>pipeline = [], outputs = [Fulfilled initialValue], headPhase = Idle,
               queueLength = 0, tasksComplete = 0, queueIsClosed = False,
               numberOfClosures = 0, numberOfOpenings = 0, openSubscribers = [],
               drainWaiters = [], futures = []\<rparr>
      in if startQueueClosed then closeQueue q else q)"

definition pushFunctionToQueue ::
  "'r \<Rightarrow> ('v \<Rightarrow> 'r \<Rightarrow> 'i) \<Rightarrow> ('i \<Rightarrow> 'v) \<Rightarrow> nat \<Rightarrow> ('v, 'i, 'r) queue \<Rightarrow> ('v, 'i, 'r) queue" where
  "pushFunctionToQueue knownArgs createInputToTask callback timeoutInMS q =
     q\<lparr>queueLength := Suc (queueLength q),
       pipeline := pipeline q @ [FunctionTask knownArgs createInputToTask callback timeoutInMS]\<rparr>"

definition pushPromiseToQueue ::
  "'r \<Rightarrow> ('v \<Rightarrow> 'r \<Rightarrow> 'i) \<Rightarrow> ('i \<Rightarrow> 'v settled option) \<Rightarrow> ('v, 'i, 'r) queue \<Rightarrow> ('v, 'i, 'r) queue" where
  "pushPromiseToQueue knownArgs createInputToTask promise q =
     q\<lparr>queueLength := Suc (queueLength q),
       pipeline := pipeline q @ [PromiseTask knownArgs createInputToTask promise]\<rparr>"

subsection \<open>Progress of the chain\<close>

text \<open>The step at the head settles: its value is appended, the next step is due.\<close>

definition completeStage :: "'v settled \<Rightarrow> ('v, 'i, 'r) queue \<Rightarrow> ('v, 'i, 'r) queue" where
  "completeStage r q = q\<lparr>outputs := outputs q @ [r], headPhase := Idle\<rparr>"

text \<open>
  The chain reaches a step: the \<open>then\<close> callback of the step runs on the value of the
  chain. A synchronous task starts its timer (line 36); an asynchronous task
  computes its input and starts (lines 49-50); a barrier checks the counters
  (lines 100-105). On a rejected chain, a \<open>then\<close> without a rejection handler passes
  the rejection on (\<open>pushPromiseToQueue\<close>), while the \<open>new Promise\<close> wrappers of
  \<open>pushFunctionToQueue\<close> and \<open>closeQueue\<close> are never settled.
\<close>

fun stageReached :: "('v, 'i, 'r) stage \<Rightarrow> ('v, 'i, 'r) queue \<Rightarrow> ('v, 'i, 'r) queue" where
  "stageReached (FunctionTask a ci cb t) q =
     (case current q of
        Fulfilled x \<Rightarrow> q\<lparr>headPhase := TimerPending\<rparr>
      | Rejected \<Rightarrow> q\<lparr>headPhase := Stalled\<rparr>)"
| "stageReached (PromiseTask a ci p) q =
     (case current q of
        Fulfilled x \<Rightarrow> q\<lparr>headPhase := AwaitingPromise (ci x a)\<rparr>
      | Rejected \<Rightarrow> q\<lparr>outputs := outputs q @ [Rejected]\<rparr>)"
| "stageReached (Closure n) q =
     (case current q of
        Fulfilled x \<Rightarrow> closureReached n q
      | Rejected \<Rightarrow> q\<lparr>headPhase := Stalled\<rparr>)"

definition chainAdvances :: "('v, 'i, 'r) queue \<Rightarrow> ('v, 'i, 'r) queue option" where
  "chainAdvances q =
     (case headPhase q of
        Idle \<Rightarrow> if position q < length (pipeline q)
                then Some (stageReached (pipeline q ! position q) q) else None
      | _ \<Rightarrow> None)"

text \<open>
  The timer of a synchronous task fires (lines 36-40): the input is computed from the
  value of the chain, the callback runs, the step resolves with its output, and
  \<open>registerTaskCompletion\<close> runs (line 42).
\<close>

definition timerFires :: "('v, 'i, 'r) queue \<Rightarrow> ('v, 'i, 'r) queue option" where
  "timerFires q =
     (case headPhase q of
        TimerPending \<Rightarrow>
          (case (pipeline q ! position q, current q) of
             (FunctionTask a ci cb t, Fulfilled x) \<Rightarrow>
               Some (registerTaskCompletion (completeStage (Fulfilled (cb (ci x a))) q))
           | _ \<Rightarrow> None)
      | _ \<Rightarrow> None)"

text \<open>
  The promise of an asynchronous task settles (lines 50-51): fulfilled, the step
  resolves and \<open>registerTaskCompletion\<close> runs; rejected, the rejection passes on and
  \<open>registerTaskCompletion\<close> is skipped. A promise that never settles enables nothing.
\<close>

definition promiseSettles :: "('v, 'i, 'r) queue \<Rightarrow> ('v, 'i, 'r) queue option" where
  "promiseSettles q =
     (case headPhase q of
        AwaitingPromise i \<Rightarrow>
          (case pipeline q ! position q of
             PromiseTask a ci p \<Rightarrow>
               (case p i of
                  None \<Rightarrow> None
                | Some (Fulfilled w) \<Rightarrow> Some (registerTaskCompletion (completeStage (Fulfilled w) q))
                | Some Rejected \<Rightarrow> Some (completeStage Rejected q))
           | _ \<Rightarrow> None)
      | _ \<Rightarrow> None)"

declare new_queue_def [queue_defs] pushFunctionToQueue_def [queue_defs]
  pushPromiseToQueue_def [queue_defs] completeStage_def [queue_defs]
  chainAdvances_def [queue_defs] timerFires_def [queue_defs] promiseSettles_def [queue_defs]
  position_def [queue_defs] current_def [queue_defs]

lemma push_frame [simp]:
  "pipeline (pushFunctionToQueue a ci cb t q) = pipeline q @ [FunctionTask a ci cb t]"
  "outputs (pushFunctionToQueue a ci cb t q) = outputs q"
  "headPhase (pushFunctionToQueue a ci cb t q) = headPhase q"
  "numberOfOpenings (pushFunctionToQueue a ci cb t q) = numberOfOpenings q"
  "pipeline (pushPromiseToQueue a ci p q) = pipeline q @ [PromiseTask a ci p]"
  "outputs (pushPromiseToQueue a ci p q) = outputs q"
  "headPhase (pushPromiseToQueue a ci p q) = headPhase q"
  "numberOfOpenings (pushPromiseToQueue a ci p q) = numberOfOpenings q"
  by (simp_all add: pushFunctionToQueue_def pushPromiseToQueue_def)

lemma completeStage_frame [simp]:
  "pipeline (completeStage r q) = pipeline q"
  "outputs (completeStage r q) = outputs q @ [r]"
  "headPhase (completeStage r q) = Idle"
  "numberOfOpenings (completeStage r q) = numberOfOpenings q"
  by (simp_all add: completeStage_def)

subsection \<open>When the progress operations are enabled\<close>

lemma chainAdvances_SomeD:
  "chainAdvances q = Some q' \<Longrightarrow>
   headPhase q = Idle \<and> position q < length (pipeline q) \<and> q' = stageReached (pipeline q ! position q) q"
  by (auto simp: chainAdvances_def split: phase.splits if_splits)

lemma timerFires_SomeD:
  "timerFires q = Some q' \<Longrightarrow>
   \<exists>a ci cb t x. headPhase q = TimerPending \<and> pipeline q ! position q = FunctionTask a ci cb t \<and>
     current q = Fulfilled x \<and> q' = registerTaskCompletion (completeStage (Fulfilled (cb (ci x a))) q)"
  by (auto simp: timerFires_def split: phase.splits stage.splits settled.splits)

lemma promiseSettles_SomeD:
  "promiseSettles q = Some q' \<Longrightarrow>
   \<exists>i a ci p r. headPhase q = AwaitingPromise i \<and> pipeline q ! position q = PromiseTask a ci p \<and>
     p i = Some r \<and>
     q' = (case r of Fulfilled w \<Rightarrow> registerTaskCompletion (completeStage (Fulfilled w) q)
                   | Rejected \<Rightarrow> completeStage Rejected q)"
  by (auto simp: promiseSettles_def split: phase.splits stage.splits option.splits settled.splits)

end
