(* ===== verification/Semantics.thy ===== *)
theory Semantics
  imports Chain
begin

text \<open>
  The queue as an event system. An event is either a call of a public method of
  \<open>AsyncChainQueue\<close> (run to completion, as JavaScript runs a synchronous method)
  or one unit of asynchronous progress of the chain. Any interleaving of the two
  kinds is allowed: this over-approximates the JavaScript event loop, whose
  microtasks run before the next caller's event, so every property proved for all
  runs holds for the real schedules too. \<open>reachable\<close> is the set of states that
  some run from a freshly constructed queue reaches.
\<close>

datatype (dead 'v, dead 'i, dead 'r) event =
    PushFunction 'r "'v \<Rightarrow> 'r \<Rightarrow> 'i" "'i \<Rightarrow> 'v" nat
  | PushPromise 'r "'v \<Rightarrow> 'r \<Rightarrow> 'i" "'i \<Rightarrow> 'v settled option"
  | CloseAndGetResult
  | DrainThenClose
  | Open
  | ChainAdvance
  | TimerFire
  | PromiseSettle

fun exec_event :: "('v, 'i, 'r) event \<Rightarrow> ('v, 'i, 'r) queue \<Rightarrow> ('v, 'i, 'r) queue option" where
  "exec_event (PushFunction a ci cb t) q = Some (pushFunctionToQueue a ci cb t q)"
| "exec_event (PushPromise a ci p) q = Some (pushPromiseToQueue a ci p q)"
| "exec_event CloseAndGetResult q = Some (fst (closeQueueAndGetFinalResult q))"
| "exec_event DrainThenClose q = Some (fst (getFinalResultAndCloseWhenAllTasksComplete q))"
| "exec_event Open q = Some (openQueue q)"
| "exec_event ChainAdvance q = chainAdvances q"
| "exec_event TimerFire q = timerFires q"
| "exec_event PromiseSettle q = promiseSettles q"

fun run :: "('v, 'i, 'r) event list \<Rightarrow> ('v, 'i, 'r) queue \<Rightarrow> ('v, 'i, 'r) queue option" where
  "run [] q = Some q"
| "run (e # es) q = (case exec_event e q of None \<Rightarrow> None | Some q' \<Rightarrow> run es q')"

fun is_open_event :: "('v, 'i, 'r) event \<Rightarrow> bool" where
  "is_open_event Open = True"
| "is_open_event _ = False"

inductive reachable :: "('v, 'i, 'r) queue \<Rightarrow> bool" where
  init: "reachable (new_queue v c)"
| step: "reachable q \<Longrightarrow> exec_event e q = Some q' \<Longrightarrow> reachable q'"

lemma reachable_run: "reachable q \<Longrightarrow> run es q = Some q' \<Longrightarrow> reachable q'"
proof (induction es arbitrary: q)
  case Nil
  then show ?case by simp
next
  case (Cons e es)
  then show ?case
    by (auto split: option.splits intro: reachable.step)
qed

lemma run_append:
  "run (es @ fs) q = (case run es q of None \<Rightarrow> None | Some q' \<Rightarrow> run fs q')"
  by (induction es arbitrary: q) (auto split: option.splits)

end
