(* ===== verification/Invariant.thy ===== *)
theory Invariant
  imports Semantics
begin

text \<open>
  The invariant of \<open>AsyncChainQueue\<close> that every reachable state satisfies, split
  into parts that each tie one group of fields to the unrolled chain:
  \<^item> \<open>shape_ok\<close>: the chain has its initial value and is never ahead of its steps;
  \<^item> \<open>head_ok\<close>: the phase of the head agrees with the step there and with the value
    the chain holds;
  \<^item> \<open>fifo_ok\<close>: every settled value is the result of its step on the value before it;
  \<^item> \<open>counts_ok\<close>: \<open>queueLength\<close> counts the submitted tasks, \<open>tasksComplete\<close> the
    completed tasks that fulfilled;
  \<^item> \<open>closures_ok\<close>: the barriers carry the closure numbers \<open>1, \<dots>, numberOfClosures\<close>
    in order, the gate counters agree with the flag, and every barrier passed so far
    had its number covered by \<open>numberOfOpenings\<close>;
  \<^item> \<open>futures_ok\<close>: futures name positions of the chain, the pending drain requests
    are exactly the subscribers of \<open>queueComplete\<close>, and they exist only while tasks
    are outstanding;
  \<^item> \<open>drained_ok\<close>: a fired drain request names a position before which every task
    has completed and fulfilled;
  \<^item> \<open>subscribers_ok\<close>: \<open>openQueueSignal\<close> keeps one subscriber for every barrier the
    chain has reached.
\<close>

subsection \<open>The parts\<close>

definition shape_ok :: "('v, 'i, 'r) queue \<Rightarrow> bool" where
  "shape_ok q \<longleftrightarrow> outputs q \<noteq> [] \<and> length (outputs q) \<le> Suc (length (pipeline q)) \<and>
     (headPhase q \<noteq> Idle \<longrightarrow> length (outputs q) \<le> length (pipeline q))"

fun phase_ok :: "('v, 'i, 'r) stage \<Rightarrow> 'v settled \<Rightarrow> nat \<Rightarrow> 'i phase \<Rightarrow> bool" where
  "phase_ok st r opn Idle = True"
| "phase_ok (FunctionTask a ci cb t) r opn TimerPending = is_fulfilled r"
| "phase_ok (PromiseTask a ci p) r opn (AwaitingPromise i) =
     (case r of Fulfilled x \<Rightarrow> i = ci x a | Rejected \<Rightarrow> False)"
| "phase_ok (Closure n) r opn WaitingForOpen = (is_fulfilled r \<and> opn < n)"
| "phase_ok (FunctionTask a ci cb t) r opn Stalled = (\<not> is_fulfilled r)"
| "phase_ok (Closure n) r opn Stalled = (\<not> is_fulfilled r)"
| "phase_ok _ _ _ _ = False"

definition head_ok :: "('v, 'i, 'r) queue \<Rightarrow> bool" where
  "head_ok q \<longleftrightarrow> phase_ok (pipeline q ! position q) (current q) (numberOfOpenings q) (headPhase q)"

definition fifo_ok :: "('v, 'i, 'r) queue \<Rightarrow> bool" where
  "fifo_ok q \<longleftrightarrow> chained (pipeline q) (outputs q) \<and> is_fulfilled (hd (outputs q))"

definition counts_ok :: "('v, 'i, 'r) queue \<Rightarrow> bool" where
  "counts_ok q \<longleftrightarrow> queueLength q = length (filter is_task (pipeline q)) \<and>
     tasksComplete q = length (filter registers (zip (pipeline q) (tl (outputs q))))"

fun passed_ok :: "nat \<Rightarrow> ('v, 'i, 'r) stage \<Rightarrow> bool" where
  "passed_ok opn (Closure n) = (n \<le> opn)"
| "passed_ok opn _ = True"

definition closures_ok :: "('v, 'i, 'r) queue \<Rightarrow> bool" where
  "closures_ok q \<longleftrightarrow> map closure_no (filter is_closure (pipeline q)) = [1..<Suc (numberOfClosures q)] \<and>
     gate_ok q \<and> list_all (passed_ok (numberOfOpenings q)) (take (position q) (pipeline q))"

fun target_ok :: "nat \<Rightarrow> future \<Rightarrow> bool" where
  "target_ok l (Snapshot n) = (n \<le> l)"
| "target_ok l DrainPending = True"
| "target_ok l (DrainFired n) = (n \<le> l)"

definition futures_ok :: "('v, 'i, 'r) queue \<Rightarrow> bool" where
  "futures_ok q \<longleftrightarrow> list_all (target_ok (length (pipeline q))) (futures q) \<and>
     distinct (drainWaiters q) \<and> (\<forall>w \<in> set (drainWaiters q). w < length (futures q)) \<and>
     (\<forall>w < length (futures q). futures q ! w = DrainPending \<longleftrightarrow> w \<in> set (drainWaiters q))"

definition waiters_ok :: "('v, 'i, 'r) queue \<Rightarrow> bool" where
  "waiters_ok q \<longleftrightarrow> (drainWaiters q \<noteq> [] \<longrightarrow> tasksComplete q < queueLength q)"

definition task_settled :: "'v settled list \<Rightarrow> nat \<Rightarrow> bool" where
  "task_settled rs k \<longleftrightarrow> Suc k < length rs \<and> is_fulfilled (rs ! Suc k)"

definition drained_ok :: "('v, 'i, 'r) queue \<Rightarrow> bool" where
  "drained_ok q \<longleftrightarrow> (\<forall>w n. w < length (futures q) \<longrightarrow> futures q ! w = DrainFired n \<longrightarrow>
     (\<forall>k < n. is_task (pipeline q ! k) \<longrightarrow> task_settled (outputs q) k))"

fun waiting_subscriber :: "'i phase \<Rightarrow> ('v, 'i, 'r) stage \<Rightarrow> nat list" where
  "waiting_subscriber WaitingForOpen st = [closure_no st]"
| "waiting_subscriber _ st = []"

definition subscribers_ok :: "('v, 'i, 'r) queue \<Rightarrow> bool" where
  "subscribers_ok q \<longleftrightarrow> openSubscribers q =
     map closure_no (filter is_closure (take (position q) (pipeline q))) @
     waiting_subscriber (headPhase q) (pipeline q ! position q)"

definition core_inv :: "('v, 'i, 'r) queue \<Rightarrow> bool" where
  "core_inv q \<longleftrightarrow> shape_ok q \<and> head_ok q \<and> fifo_ok q \<and> counts_ok q \<and> closures_ok q \<and>
     futures_ok q \<and> drained_ok q \<and> subscribers_ok q"

definition queue_inv :: "('v, 'i, 'r) queue \<Rightarrow> bool" where
  "queue_inv q \<longleftrightarrow> core_inv q \<and> waiters_ok q"

declare shape_ok_def [inv_defs] head_ok_def [inv_defs] fifo_ok_def [inv_defs]
  counts_ok_def [inv_defs] closures_ok_def [inv_defs] futures_ok_def [inv_defs]
  drained_ok_def [inv_defs] subscribers_ok_def [inv_defs] waiters_ok_def [inv_defs]

lemma core_invD:
  assumes "core_inv q"
  shows "shape_ok q" "head_ok q" "fifo_ok q" "counts_ok q" "closures_ok q" "futures_ok q"
    "drained_ok q" "subscribers_ok q"
  using assms by (simp_all add: core_inv_def)

lemma queue_invD:
  assumes "queue_inv q"
  shows "shape_ok q" "head_ok q" "fifo_ok q" "counts_ok q" "closures_ok q" "futures_ok q"
    "drained_ok q" "subscribers_ok q" "waiters_ok q"
  using assms by (simp_all add: queue_inv_def core_inv_def)

lemma registers_eq: "registers = (\<lambda>(x, y). is_task x \<and> is_fulfilled y)"
  by (auto simp: registers_def fun_eq_iff)

lemma counts_ok_le: "counts_ok q \<Longrightarrow> tasksComplete q \<le> queueLength q"
  unfolding counts_ok_def registers_eq by (metis filter_zip_count_le)

subsection \<open>The initial state\<close>

lemma queue_inv_new_queue: "queue_inv (new_queue v c)"
  by (cases c) (simp_all add: queue_inv_def core_inv_def inv_defs new_queue_def closeQueue_def position_def
      current_def chained_def)

subsection \<open>The shape of the chain\<close>

lemma shape_ok_position:
  assumes "shape_ok q"
  shows "Suc (position q) = length (outputs q)" and "position q \<le> length (pipeline q)"
    and "headPhase q \<noteq> Idle \<Longrightarrow> position q < length (pipeline q)"
  using assms by (auto simp: shape_ok_def position_def simp flip: length_greater_0_conv)

lemma current_nth: "shape_ok q \<Longrightarrow> current q = outputs q ! position q"
  by (simp add: shape_ok_def current_def position_def last_conv_nth)

subsection \<open>Appending a step\<close>

text \<open>
  Both submission methods and \<open>closeQueue\<close> append one step to \<open>pipeline\<close>; the
  parts that do not mention the counters are kept by any such append.
\<close>

lemma append_stage_parts:
  assumes "shape_ok q" and "pipeline q' = pipeline q @ [st]"
    and "outputs q' = outputs q" and "headPhase q' = headPhase q"
  shows "shape_ok q'"
    and "headPhase q \<noteq> Idle \<Longrightarrow> pipeline q' ! position q' = pipeline q ! position q"
    and "chained (pipeline q') (outputs q') = chained (pipeline q) (outputs q)"
    and "take (position q') (pipeline q') = take (position q) (pipeline q)"
    and "k < length (pipeline q) \<Longrightarrow> pipeline q' ! k = pipeline q ! k"
    and "zip (pipeline q') (tl (outputs q')) = zip (pipeline q) (tl (outputs q))"
  using assms shape_ok_position [OF assms(1)]
  by (auto simp: shape_ok_def position_def nth_append)

subsection \<open>Growing the chain keeps what was settled\<close>

lemma task_settled_append: "task_settled rs k \<Longrightarrow> task_settled (rs @ ys) k"
  by (simp add: task_settled_def nth_append)

lemma target_ok_mono: "target_ok l f \<Longrightarrow> l \<le> l' \<Longrightarrow> target_ok l' f"
  by (cases f) simp_all

lemma futures_ok_fired_le:
  "futures_ok q \<Longrightarrow> w < length (futures q) \<Longrightarrow> futures q ! w = DrainFired n \<Longrightarrow>
   n \<le> length (pipeline q)"
  by (metis futures_ok_def list_all_length target_ok.simps(3))

lemma drained_ok_extend:
  assumes "drained_ok q" and "futures_ok q" and "futures q' = futures q"
    and "pipeline q' = pipeline q @ zs" and "outputs q' = outputs q @ ys"
  shows "drained_ok q'"
  unfolding drained_ok_def
proof (intro allI impI)
  fix w n k
  assume w: "w < length (futures q')" and f: "futures q' ! w = DrainFired n"
    and k: "k < n" and t: "is_task (pipeline q' ! k)"
  from w f assms(2,3) have "n \<le> length (pipeline q)" by (simp add: futures_ok_fired_le)
  with k assms(4) t have "is_task (pipeline q ! k)" by (simp add: nth_append)
  with assms(1,3) w f k have "task_settled (outputs q) k" by (auto simp: drained_ok_def)
  with assms(5) show "task_settled (outputs q') k" by (simp add: task_settled_append)
qed

lemma futures_ok_extend:
  assumes "futures_ok q" and "futures q' = futures q" and "drainWaiters q' = drainWaiters q"
    and "length (pipeline q) \<le> length (pipeline q')"
  shows "futures_ok q'"
  using assms by (auto simp: futures_ok_def list_all_iff intro: target_ok_mono)

subsection \<open>Submitting a task\<close>

lemma queue_inv_push_task:
  assumes inv: "queue_inv q" and task: "is_task st"
  defines "q' \<equiv> q\<lparr>queueLength := Suc (queueLength q), pipeline := pipeline q @ [st]\<rparr>"
  shows "queue_inv q'"
proof -
  note I = queue_invD [OF inv]
  from inv have sh: "shape_ok q" by (simp add: queue_inv_def core_inv_def)
  note parts = append_stage_parts [OF sh, of q' st, unfolded q'_def, simplified]
  have "head_ok q'"
    using I(2) parts(2) by (cases "headPhase q") (auto simp: head_ok_def q'_def)
  moreover have "closures_ok q'"
    using I(5) parts(4) task by (simp add: closures_ok_def gate_ok_def q'_def is_task_iff)
  moreover have "futures_ok q'"
    proof (rule futures_ok_extend)
      show "futures_ok q" by (rule I(6))
    qed (simp_all add: q'_def)
  moreover have "drained_ok q'"
    by (rule drained_ok_extend [OF I(7) I(6), of _ "[st]" "[]"]) (simp_all add: q'_def)
  moreover have "subscribers_ok q'"
    using I(8) parts(2,4) by (cases "headPhase q") (auto simp: subscribers_ok_def q'_def)
  moreover have "waiters_ok q'"
    using I(9) by (auto simp: waiters_ok_def q'_def)
  ultimately show ?thesis
    using I parts(1,3,6) task
    by (simp add: queue_inv_def core_inv_def fifo_ok_def counts_ok_def q'_def)
qed

lemma queue_inv_pushFunctionToQueue:
  "queue_inv q \<Longrightarrow> queue_inv (pushFunctionToQueue a ci cb t q)"
  unfolding pushFunctionToQueue_def by (rule queue_inv_push_task) simp_all

lemma queue_inv_pushPromiseToQueue:
  "queue_inv q \<Longrightarrow> queue_inv (pushPromiseToQueue a ci p q)"
  unfolding pushPromiseToQueue_def by (rule queue_inv_push_task) simp_all

subsection \<open>Closing and handing out futures\<close>

lemma core_inv_closeQueue:
  assumes inv: "core_inv q"
  shows "core_inv (closeQueue q)"
proof (cases "queueIsClosed q")
  case True
  with inv show ?thesis by simp
next
  case False
  define n where "n = Suc (numberOfClosures q)"
  have q': "closeQueue q = q\<lparr>numberOfClosures := n, pipeline := pipeline q @ [Closure n],
                               queueIsClosed := True\<rparr>"
    using False by (simp add: closeQueue_open n_def)
  note I = core_invD [OF inv]
  note parts = append_stage_parts [OF I(1), of "closeQueue q" "Closure n", unfolded q', simplified]
  have "head_ok (closeQueue q)"
    using I(2) parts(2) by (cases "headPhase q") (auto simp: head_ok_def q' current_def)
  moreover have "closures_ok (closeQueue q)"
    using I(5) parts(4) gate_ok_closeQueue [of q]
    by (simp add: closures_ok_def q' n_def)
  moreover have "futures_ok (closeQueue q)"
  proof (rule futures_ok_extend)
    show "futures_ok q" by (rule I(6))
  qed (simp_all add: q')
  moreover have "drained_ok (closeQueue q)"
    by (rule drained_ok_extend [OF I(7) I(6), of _ "[Closure n]" "[]"]) (simp_all add: q')
  moreover have "subscribers_ok (closeQueue q)"
    using I(8) parts(2,4) by (cases "headPhase q") (auto simp: subscribers_ok_def q')
  ultimately show ?thesis
    using I parts(1,3,6) by (simp add: core_inv_def fifo_ok_def counts_ok_def q')
qed

lemma queue_inv_closeQueue: "queue_inv q \<Longrightarrow> queue_inv (closeQueue q)"
  by (simp add: queue_inv_def core_inv_closeQueue waiters_ok_def)

lemma queue_inv_add_snapshot:
  assumes inv: "queue_inv q" and n: "n \<le> length (pipeline q)"
  shows "queue_inv (q\<lparr>futures := futures q @ [Snapshot n]\<rparr>)"
proof -
  note I = queue_invD [OF inv]
  have "futures_ok (q\<lparr>futures := futures q @ [Snapshot n]\<rparr>)"
    using I(6) n by (auto simp: futures_ok_def nth_append)
  moreover have "drained_ok (q\<lparr>futures := futures q @ [Snapshot n]\<rparr>)"
    using I(7) by (auto simp: drained_ok_def nth_append split: if_splits)
  ultimately show ?thesis
    using I by (simp add: queue_inv_def core_inv_def inv_defs)
qed

lemma queue_inv_closeQueueAndGetFinalResult:
  "queue_inv q \<Longrightarrow> queue_inv (fst (closeQueueAndGetFinalResult q))"
  unfolding closeQueueAndGetFinalResult_def Let_def fst_conv
  by (rule queue_inv_add_snapshot)
     (simp_all add: queue_inv_closeQueue closeQueue_pipeline)

lemma queue_inv_add_drain_waiter:
  assumes inv: "queue_inv q" and pending: "queueLength q \<noteq> tasksComplete q"
  shows "queue_inv (q\<lparr>futures := futures q @ [DrainPending],
                        drainWaiters := drainWaiters q @ [length (futures q)]\<rparr>)"
proof -
  note I = queue_invD [OF inv]
  have lt: "tasksComplete q < queueLength q"
    using counts_ok_le [OF I(4)] pending by simp
  have "futures_ok (q\<lparr>futures := futures q @ [DrainPending],
                           drainWaiters := drainWaiters q @ [length (futures q)]\<rparr>)"
    using I(6) by (auto simp: futures_ok_def nth_append less_Suc_eq)
  moreover have "drained_ok (q\<lparr>futures := futures q @ [DrainPending],
                           drainWaiters := drainWaiters q @ [length (futures q)]\<rparr>)"
    using I(7) by (auto simp: drained_ok_def nth_append split: if_splits)
  ultimately show ?thesis
    using I lt by (simp add: queue_inv_def core_inv_def inv_defs)
qed

lemma queue_inv_getFinalResultAndCloseWhenAllTasksComplete:
  assumes inv: "queue_inv q"
  shows "queue_inv (fst (getFinalResultAndCloseWhenAllTasksComplete q))"
proof (cases "queueLength q = tasksComplete q")
  case True
  from inv have "queue_inv (closeQueue q)" by (rule queue_inv_closeQueue)
  then have "queue_inv ((closeQueue q)\<lparr>futures := futures (closeQueue q) @
                                          [Snapshot (length (pipeline q))]\<rparr>)"
    by (rule queue_inv_add_snapshot) (simp add: closeQueue_pipeline)
  with True show ?thesis
    by (simp add: getFinalResultAndCloseWhenAllTasksComplete_def Let_def)
next
  case False
  with inv show ?thesis
    by (simp add: getFinalResultAndCloseWhenAllTasksComplete_def queue_inv_add_drain_waiter)
qed

subsection \<open>Reopening\<close>

lemma phase_ok_openings:
  "ph \<noteq> WaitingForOpen \<Longrightarrow> phase_ok st r o1 ph = phase_ok st r o2 ph"
  by (cases ph; cases st) simp_all

lemma passed_ok_mono: "list_all (passed_ok o1) xs \<Longrightarrow> o1 \<le> o2 \<Longrightarrow> list_all (passed_ok o2) xs"
proof (induction xs)
  case Nil
  then show ?case by simp
next
  case (Cons x xs)
  then show ?case by (cases x) auto
qed

lemma phase_ok_waiting:
  "phase_ok st r opn WaitingForOpen \<Longrightarrow> \<exists>n x. st = Closure n \<and> r = Fulfilled x \<and> opn < n"
  by (cases st; cases r) simp_all

lemma closures_ok_closure_le:
  assumes "Closure n \<in> set (pipeline q)" and "closures_ok q"
  shows "n \<le> numberOfClosures q"
proof -
  from assms(2) have num: "map closure_no (filter is_closure (pipeline q)) = [1..<Suc (numberOfClosures q)]"
    unfolding closures_ok_def by blast
  from numbered_le [OF num assms(1)] show ?thesis by simp
qed

text \<open>The barrier the chain waits at is released, and its number is now covered.\<close>

lemma queue_inv_release:
  assumes inv: "queue_inv q" and w: "headPhase q = WaitingForOpen"
  shows "queue_inv (openQueue q)"
proof -
  note I = queue_invD [OF inv]
  from I(2) w obtain n x where st: "pipeline q ! position q = Closure n"
    and cur: "current q = Fulfilled x" and lt: "numberOfOpenings q < n"
    by (auto simp: head_ok_def dest: phase_ok_waiting)
  have pos: "position q < length (pipeline q)" and sp: "Suc (position q) = length (outputs q)"
    using shape_ok_position [OF I(1)] w by simp_all
  have ne: "outputs q \<noteq> []" using I(1) by (simp add: shape_ok_def)
  have "Closure n \<in> set (pipeline q)" using st pos by (metis nth_mem)
  then have nc: "n \<le> numberOfClosures q"
    using I(5) by (rule closures_ok_closure_le)
  with lt have opens: "numberOfOpenings (openQueue q) = Suc (numberOfOpenings q)"
    by (simp add: openQueue_openings)
  have outs: "outputs (openQueue q) = outputs q @ [current q]"
    using w by (simp add: openQueue_outputs current_def)
  have ph: "headPhase (openQueue q) = Idle" using w by (simp add: openQueue_phase)
  have "position (openQueue q) = Suc (position q)"
    using outs sp by (simp add: position_def)
  then have take_suc: "take (position (openQueue q)) (pipeline q) = take (position q) (pipeline q) @ [Closure n]"
    using pos st by (simp add: take_Suc_conv_app_nth)
  have tl_outs: "tl (outputs (openQueue q)) = tl (outputs q) @ [current q]"
    using outs ne by simp
  have len_tl: "length (tl (outputs q)) = position q" using sp by simp
  have "shape_ok (openQueue q)"
    using I(1) w outs ph by (simp add: shape_ok_def)
  moreover have "head_ok (openQueue q)"
    using ph by (simp add: head_ok_def)
  moreover have "fifo_ok (openQueue q)"
  proof -
    have "length (outputs q) - 1 = position q" by (simp add: position_def)
    then have "stage_result (pipeline q ! (length (outputs q) - 1)) (last (outputs q)) = Some (current q)"
      using st cur by (simp add: current_def)
    then have "chained (pipeline q) (outputs q @ [current q])"
      using I(3) I(1) w ne by (intro chained_snoc) (simp_all add: fifo_ok_def shape_ok_def)
    then show ?thesis using I(3) outs ne by (simp add: fifo_ok_def)
  qed
  moreover have "counts_ok (openQueue q)"
    using I(4) tl_outs pos len_tl st by (simp add: counts_ok_def zip_snoc_right)
  moreover have "closures_ok (openQueue q)"
  proof -
    have "list_all (passed_ok (Suc (numberOfOpenings q))) (take (position q) (pipeline q))"
      using I(5) by (auto simp: closures_ok_def intro: passed_ok_mono)
    then show ?thesis
      using I(5) gate_ok_openQueue [of q] take_suc opens nc
      by (auto simp: closures_ok_def gate_ok_def split: if_splits)
  qed
  moreover have "futures_ok (openQueue q)"
    by (rule futures_ok_extend [OF I(6)]) simp_all
  moreover have "drained_ok (openQueue q)"
    by (rule drained_ok_extend [OF I(7) I(6), of _ "[]" "[current q]"]) (simp_all add: outs)
  moreover have "subscribers_ok (openQueue q)"
    using I(8) take_suc w ph st by (simp add: subscribers_ok_def)
  moreover have "waiters_ok (openQueue q)"
    using I(9) by (simp add: waiters_ok_def)
  ultimately show ?thesis by (simp add: queue_inv_def core_inv_def)
qed

lemma queue_inv_openQueue:
  assumes inv: "queue_inv q"
  shows "queue_inv (openQueue q)"
proof (cases "headPhase q = WaitingForOpen")
  case True
  with inv show ?thesis by (rule queue_inv_release)
next
  case False
  note I = queue_invD [OF inv]
  have outs: "outputs (openQueue q) = outputs q" and ph: "headPhase (openQueue q) = headPhase q"
    using False by (simp_all add: openQueue_outputs openQueue_phase)
  have le: "numberOfOpenings q \<le> numberOfOpenings (openQueue q)"
    by (simp add: openQueue_openings)
  have "head_ok (openQueue q)"
    using I(2) outs ph phase_ok_openings [OF False, of "pipeline q ! position q" "current q"
        "numberOfOpenings (openQueue q)" "numberOfOpenings q"]
    by (simp add: head_ok_def current_def position_def)
  moreover have "closures_ok (openQueue q)"
    using I(5) gate_ok_openQueue [of q] le outs
    by (auto simp: closures_ok_def position_def intro: passed_ok_mono)
  moreover have "futures_ok (openQueue q)"
    by (rule futures_ok_extend [OF I(6)]) simp_all
  moreover have "drained_ok (openQueue q)"
    by (rule drained_ok_extend [OF I(7) I(6), of _ "[]" "[]"]) (simp_all add: outs)
  moreover have "subscribers_ok (openQueue q)"
    using I(8) outs ph by (simp add: subscribers_ok_def position_def)
  ultimately show ?thesis
    using I outs ph by (simp add: queue_inv_def core_inv_def shape_ok_def fifo_ok_def counts_ok_def waiters_ok_def)
qed

end
