(* ===== verification/Chain_Inv.thy ===== *)
theory Chain_Inv
  imports Invariant
begin

text \<open>
  The invariant across the asynchronous progress of the chain: the drain
  subscribers firing inside \<open>registerTaskCompletion\<close>, a step settling, and the chain
  reaching a step. Together with the lemmas of \<open>Invariant\<close> this gives preservation
  by every event, and so the invariant in every reachable state.
\<close>

subsection \<open>Firing the drain subscribers\<close>

definition all_settled :: "('v, 'i, 'r) queue \<Rightarrow> bool" where
  "all_settled q \<longleftrightarrow> (\<forall>k < length (pipeline q). is_task (pipeline q ! k) \<longrightarrow> task_settled (outputs q) k)"

lemma core_inv_fire_one:
  assumes inv: "core_inv q" and dw: "drainWaiters q = w # ws" and all: "all_settled q"
  shows "core_inv (q\<lparr>drainWaiters := ws, futures := (futures q)[w := DrainFired (length (pipeline q))]\<rparr>)"
    (is "core_inv ?q")
proof -
  note I = core_invD [OF inv]
  have w: "w < length (futures q)" and d: "distinct (w # ws)"
    using I(6) dw by (auto simp: futures_ok_def)
  have "futures_ok ?q"
  proof -
    have "list_all (target_ok (length (pipeline q))) ((futures q)[w := DrainFired (length (pipeline q))])"
      using I(6) w by (auto simp: futures_ok_def list_all_length nth_list_update)
    moreover have "\<forall>x < length (futures q). ((futures q)[w := DrainFired (length (pipeline q))] ! x = DrainPending) \<longleftrightarrow> x \<in> set ws"
      using I(6) dw d w by (auto simp: futures_ok_def nth_list_update)
    ultimately show ?thesis using I(6) dw d by (auto simp: futures_ok_def)
  qed
  moreover have "drained_ok ?q"
    using I(7) all w by (auto simp: drained_ok_def all_settled_def nth_list_update split: if_splits)
  ultimately show ?thesis
    using I by (simp add: core_inv_def inv_defs)
qed

lemma all_settled_closeQueue: "all_settled q \<Longrightarrow> all_settled (closeQueue q)"
  by (auto simp: all_settled_def closeQueue_pipeline nth_append split: if_splits)

lemma core_inv_fireDrainWaiters:
  "core_inv q \<Longrightarrow> drainWaiters q = ws \<Longrightarrow> all_settled q \<Longrightarrow> core_inv (fireDrainWaiters ws q)"
proof (induction ws arbitrary: q)
  case Nil
  then show ?case by simp
next
  case (Cons w ws)
  let ?q = "q\<lparr>drainWaiters := ws, futures := (futures q)[w := DrainFired (length (pipeline q))]\<rparr>"
  have "core_inv (closeQueue ?q)"
    using core_inv_fire_one [OF Cons.prems] by (rule core_inv_closeQueue)
  moreover have "all_settled (closeQueue ?q)"
    using Cons.prems(3) by (intro all_settled_closeQueue) (simp add: all_settled_def)
  ultimately show ?case using Cons.IH by simp
qed

text \<open>
  When the count of completed tasks reaches the count of submitted ones, every task
  of the chain has settled with a fulfilled value.
\<close>

lemma counts_equal_all_settled:
  assumes "counts_ok q" and "shape_ok q" and "queueLength q = tasksComplete q"
  shows "all_settled q"
  unfolding all_settled_def
proof (intro allI impI)
  fix k assume k: "k < length (pipeline q)" and t: "is_task (pipeline q ! k)"
  have "length (filter (\<lambda>(x, y). is_task x \<and> is_fulfilled y) (zip (pipeline q) (tl (outputs q))))
        = length (filter is_task (pipeline q))"
    using assms(1,3) by (simp add: counts_ok_def registers_eq)
  from filter_zip_count_eq [OF this k t] assms(2) show "task_settled (outputs q) k"
    by (cases "outputs q") (auto simp: task_settled_def shape_ok_def)
qed

lemma queue_inv_registerTaskCompletion:
  assumes inv: "core_inv (q\<lparr>tasksComplete := Suc (tasksComplete q)\<rparr>)" and w: "waiters_ok q"
  shows "queue_inv (registerTaskCompletion q)"
proof (cases "queueLength q = Suc (tasksComplete q)")
  case True
  let ?q = "q\<lparr>tasksComplete := Suc (tasksComplete q)\<rparr>"
  note I = core_invD [OF inv]
  have "all_settled ?q"
    using I(4) I(1) True by (intro counts_equal_all_settled) simp_all
  with inv have "core_inv (fireDrainWaiters (drainWaiters ?q) ?q)"
    by (intro core_inv_fireDrainWaiters) simp_all
  moreover have "waiters_ok (fireDrainWaiters (drainWaiters ?q) ?q)"
    by (simp add: waiters_ok_def fireDrainWaiters_waiters)
  ultimately show ?thesis
    using True by (simp add: registerTaskCompletion_def queue_inv_def)
next
  case False
  with w have "waiters_ok (q\<lparr>tasksComplete := Suc (tasksComplete q)\<rparr>)"
    by (auto simp: waiters_ok_def)
  with inv False show ?thesis
    by (simp add: registerTaskCompletion_def queue_inv_def)
qed

subsection \<open>A task settles\<close>

text \<open>
  The task at the head settles to the value its specification gives; the count of
  completed tasks is then the count after the step, which \<open>registerTaskCompletion\<close>
  restores when the task fulfilled.
\<close>

lemma core_inv_completeStage:
  assumes inv: "queue_inv q" and pos: "position q < length (pipeline q)"
    and res: "stage_result (pipeline q ! position q) (current q) = Some r"
    and task: "is_task (pipeline q ! position q)" and nw: "headPhase q \<noteq> WaitingForOpen"
    and tc: "tc = (if is_fulfilled r then Suc (tasksComplete q) else tasksComplete q)"
  shows "core_inv ((completeStage r q)\<lparr>tasksComplete := tc\<rparr>)" (is "core_inv ?q")
proof -
  note I = queue_invD [OF inv]
  have sp: "Suc (position q) = length (outputs q)" using shape_ok_position [OF I(1)] by simp
  have ne: "outputs q \<noteq> []" using I(1) by (simp add: shape_ok_def)
  have outs: "outputs ?q = outputs q @ [r]" by (simp add: completeStage_def)
  have posq: "position ?q = Suc (position q)" using sp by (simp add: completeStage_def)
  have take_suc: "take (position ?q) (pipeline q) = take (position q) (pipeline q) @ [pipeline q ! position q]"
    using posq pos by (simp add: take_Suc_conv_app_nth)
  have len_tl: "length (tl (outputs q)) = position q" using sp by simp
  have "shape_ok ?q"
    using I(1) pos sp by (simp add: shape_ok_def completeStage_def)
  moreover have "head_ok ?q"
    by (simp add: head_ok_def completeStage_def)
  moreover have "fifo_ok ?q"
  proof -
    have "length (outputs q) - 1 = position q" by (simp add: position_def)
    with res have "stage_result (pipeline q ! (length (outputs q) - 1)) (last (outputs q)) = Some r"
      by (simp add: current_def)
    then have "chained (pipeline q) (outputs q @ [r])"
      using I(3) ne pos sp by (intro chained_snoc) (simp_all add: fifo_ok_def)
    then show ?thesis using I(3) ne by (simp add: fifo_ok_def completeStage_def)
  qed
  moreover have "counts_ok ?q"
    using I(4) pos len_tl task tc ne by (simp add: counts_ok_def completeStage_def zip_snoc_right)
  moreover have "closures_ok ?q"
  proof -
    have "passed_ok (numberOfOpenings q) (pipeline q ! position q)"
      using task by (cases "pipeline q ! position q") simp_all
    then show ?thesis
      using I(5) take_suc by (simp add: closures_ok_def gate_ok_def completeStage_def)
  qed
  moreover have "futures_ok ?q"
    by (rule futures_ok_extend [OF I(6)]) (simp_all add: completeStage_def)
  moreover have "drained_ok ?q"
    by (rule drained_ok_extend [OF I(7) I(6), of _ "[]" "[r]"]) (simp_all add: completeStage_def)
  moreover have "subscribers_ok ?q"
  proof -
    have "waiting_subscriber (headPhase q) (pipeline q ! position q) = []"
      using nw by (cases "headPhase q") simp_all
    then show ?thesis
      using I(8) take_suc task by (simp add: subscribers_ok_def completeStage_def is_task_iff)
  qed
  ultimately show ?thesis by (simp add: core_inv_def)
qed

lemma queue_inv_task_rejected:
  assumes inv: "queue_inv q" and pos: "position q < length (pipeline q)"
    and res: "stage_result (pipeline q ! position q) (current q) = Some Rejected"
    and task: "is_task (pipeline q ! position q)" and nw: "headPhase q \<noteq> WaitingForOpen"
  shows "queue_inv (completeStage Rejected q)"
proof -
  have "core_inv ((completeStage Rejected q)\<lparr>tasksComplete := tasksComplete q\<rparr>)"
    using assms by (intro core_inv_completeStage) simp_all
  moreover have "waiters_ok q" using inv by (simp add: queue_inv_def)
  ultimately show ?thesis by (simp add: queue_inv_def waiters_ok_def completeStage_def)
qed

lemma queue_inv_task_fulfilled:
  assumes inv: "queue_inv q" and pos: "position q < length (pipeline q)"
    and res: "stage_result (pipeline q ! position q) (current q) = Some (Fulfilled v)"
    and task: "is_task (pipeline q ! position q)" and nw: "headPhase q \<noteq> WaitingForOpen"
  shows "queue_inv (registerTaskCompletion (completeStage (Fulfilled v) q))"
proof (rule queue_inv_registerTaskCompletion)
  have "core_inv ((completeStage (Fulfilled v) q)\<lparr>tasksComplete := Suc (tasksComplete q)\<rparr>)"
    using assms by (intro core_inv_completeStage) simp_all
  then show "core_inv ((completeStage (Fulfilled v) q)\<lparr>tasksComplete := Suc (tasksComplete (completeStage (Fulfilled v) q))\<rparr>)"
    by (simp add: completeStage_def)
  show "waiters_ok (completeStage (Fulfilled v) q)"
    using inv by (simp add: queue_inv_def waiters_ok_def completeStage_def)
qed

subsection \<open>The chain reaches a step\<close>

lemma queue_inv_set_phase:
  assumes inv: "queue_inv q" and idle: "headPhase q = Idle" and pos: "position q < length (pipeline q)"
    and ok: "phase_ok (pipeline q ! position q) (current q) (numberOfOpenings q) ph"
    and nw: "ph \<noteq> WaitingForOpen"
  shows "queue_inv (q\<lparr>headPhase := ph\<rparr>)"
proof -
  note I = queue_invD [OF inv]
  have "shape_ok (q\<lparr>headPhase := ph\<rparr>)"
    using I(1) pos by (auto simp: shape_ok_def position_def)
  moreover have "subscribers_ok (q\<lparr>headPhase := ph\<rparr>)"
    using I(8) idle nw by (cases ph) (simp_all add: subscribers_ok_def)
  ultimately show ?thesis
    using I ok by (simp add: queue_inv_def core_inv_def inv_defs)
qed

text \<open>
  A barrier reached with a fulfilled value: it passes when its number is covered by
  the openings (and records its subscription), or waits.
\<close>

lemma queue_inv_closureReached:
  assumes inv: "queue_inv q" and idle: "headPhase q = Idle" and pos: "position q < length (pipeline q)"
    and st: "pipeline q ! position q = Closure n" and cur: "current q = Fulfilled x"
  shows "queue_inv (closureReached n q)"
proof (cases "n \<le> numberOfOpenings q")
  case True
  note I = queue_invD [OF inv]
  let ?q = "closureReached n q"
  have sp: "Suc (position q) = length (outputs q)" using shape_ok_position [OF I(1)] by simp
  have ne: "outputs q \<noteq> []" using I(1) by (simp add: shape_ok_def)
  have outs: "outputs ?q = outputs q @ [current q]"
    using True by (simp add: closureReached_outputs current_def)
  have ph: "headPhase ?q = Idle" using True idle by (simp add: closureReached_phase)
  have "position ?q = Suc (position q)" using outs sp by (simp add: position_def)
  then have take_suc: "take (position ?q) (pipeline q) = take (position q) (pipeline q) @ [Closure n]"
    using pos st by (simp add: take_Suc_conv_app_nth)
  have len_tl: "length (tl (outputs q)) = position q" using sp by simp
  have "shape_ok ?q" using I(1) pos outs ph sp by (simp add: shape_ok_def)
  moreover have "head_ok ?q" using ph by (simp add: head_ok_def)
  moreover have "fifo_ok ?q"
  proof -
    have "length (outputs q) - 1 = position q" by (simp add: position_def)
    then have "stage_result (pipeline q ! (length (outputs q) - 1)) (last (outputs q)) = Some (current q)"
      using st cur by (simp add: current_def)
    then have "chained (pipeline q) (outputs q @ [current q])"
      using I(3) ne pos sp by (intro chained_snoc) (simp_all add: fifo_ok_def)
    then show ?thesis using I(3) outs ne by (simp add: fifo_ok_def)
  qed
  moreover have "counts_ok ?q"
    using I(4) outs ne pos len_tl st by (simp add: counts_ok_def zip_snoc_right)
  moreover have "closures_ok ?q"
    using I(5) take_suc True by (simp add: closures_ok_def gate_ok_def)
  moreover have "futures_ok ?q"
    by (rule futures_ok_extend [OF I(6)]) simp_all
  moreover have "drained_ok ?q"
    by (rule drained_ok_extend [OF I(7) I(6), of _ "[]" "[current q]"]) (simp_all add: outs)
  moreover have "subscribers_ok ?q"
    using I(8) take_suc idle ph by (simp add: subscribers_ok_def)
  moreover have "waiters_ok ?q"
    using I(9) by (simp add: waiters_ok_def)
  ultimately show ?thesis by (simp add: queue_inv_def core_inv_def)
next
  case False
  note I = queue_invD [OF inv]
  let ?q = "closureReached n q"
  have outs: "outputs ?q = outputs q" and ph: "headPhase ?q = WaitingForOpen"
    using False by (simp_all add: closureReached_outputs closureReached_phase)
  have "shape_ok ?q" using I(1) pos outs ph by (simp add: shape_ok_def position_def)
  moreover have "head_ok ?q"
    using ph outs st cur False by (simp add: head_ok_def current_def position_def)
  moreover have "subscribers_ok ?q"
    using I(8) outs ph idle st by (simp add: subscribers_ok_def position_def)
  ultimately show ?thesis
    using I outs by (simp add: queue_inv_def core_inv_def inv_defs position_def)
qed

lemma queue_inv_stageReached:
  assumes inv: "queue_inv q" and idle: "headPhase q = Idle" and pos: "position q < length (pipeline q)"
  shows "queue_inv (stageReached (pipeline q ! position q) q)"
proof (cases "pipeline q ! position q")
  case (FunctionTask a ci cb t)
  then show ?thesis
    using assms by (cases "current q") (auto intro!: queue_inv_set_phase)
next
  case (PromiseTask a ci p)
  show ?thesis
  proof (cases "current q")
    case (Fulfilled x)
    with PromiseTask assms show ?thesis by (auto intro!: queue_inv_set_phase)
  next
    case Rejected
    have "q\<lparr>outputs := outputs q @ [Rejected]\<rparr> = completeStage Rejected q"
      using idle by (simp add: completeStage_def)
    moreover have "queue_inv (completeStage Rejected q)"
      using PromiseTask Rejected assms by (intro queue_inv_task_rejected) simp_all
    ultimately show ?thesis using PromiseTask Rejected by simp
  qed
next
  case (Closure n)
  then show ?thesis
    using assms by (cases "current q") (auto intro: queue_inv_closureReached queue_inv_set_phase)
qed

subsection \<open>Every event keeps the invariant\<close>

lemma queue_inv_chainAdvances:
  "queue_inv q \<Longrightarrow> chainAdvances q = Some q' \<Longrightarrow> queue_inv q'"
  by (auto simp: chainAdvances_def queue_inv_stageReached split: phase.splits if_splits)

lemma queue_inv_timerFires:
  assumes inv: "queue_inv q" and ev: "timerFires q = Some q'"
  shows "queue_inv q'"
proof -
  note I = queue_invD [OF inv]
  from ev obtain a ci cb t x where ph: "headPhase q = TimerPending"
    and st: "pipeline q ! position q = FunctionTask a ci cb t" and cur: "current q = Fulfilled x"
    and q': "q' = registerTaskCompletion (completeStage (Fulfilled (cb (ci x a))) q)"
    by (auto simp: timerFires_def split: phase.splits stage.splits settled.splits)
  have pos: "position q < length (pipeline q)" using shape_ok_position(3) [OF I(1)] ph by simp
  show ?thesis
    unfolding q' using inv pos st cur ph by (intro queue_inv_task_fulfilled) simp_all
qed

lemma queue_inv_promiseSettles:
  assumes inv: "queue_inv q" and ev: "promiseSettles q = Some q'"
  shows "queue_inv q'"
proof -
  note I = queue_invD [OF inv]
  from ev obtain i a ci p r where ph: "headPhase q = AwaitingPromise i"
    and st: "pipeline q ! position q = PromiseTask a ci p" and pr: "p i = Some r"
    by (auto simp: promiseSettles_def split: phase.splits stage.splits option.splits)
  have pos: "position q < length (pipeline q)" using shape_ok_position(3) [OF I(1)] ph by simp
  from I(2) ph st obtain x where cur: "current q = Fulfilled x" and i: "i = ci x a"
    by (cases "current q") (auto simp: head_ok_def)
  have res: "stage_result (pipeline q ! position q) (current q) = Some r"
    using st cur i pr by simp
  show ?thesis
  proof (cases r)
    case (Fulfilled w)
    with ev ph st pr have "q' = registerTaskCompletion (completeStage (Fulfilled w) q)"
      by (simp add: promiseSettles_def)
    with inv pos res st ph Fulfilled show ?thesis by (simp add: queue_inv_task_fulfilled)
  next
    case Rejected
    with ev ph st pr have "q' = completeStage Rejected q"
      by (simp add: promiseSettles_def)
    with inv pos res st ph Rejected show ?thesis by (simp add: queue_inv_task_rejected)
  qed
qed

lemma queue_inv_exec_event:
  assumes "queue_inv q" and "exec_event e q = Some q'"
  shows "queue_inv q'"
  using assms
  by (cases e)
     (auto simp: queue_inv_pushFunctionToQueue queue_inv_pushPromiseToQueue
        queue_inv_closeQueueAndGetFinalResult queue_inv_getFinalResultAndCloseWhenAllTasksComplete
        queue_inv_openQueue
      intro: queue_inv_chainAdvances queue_inv_timerFires queue_inv_promiseSettles)

lemma reachable_queue_inv: "reachable q \<Longrightarrow> queue_inv q"
proof (induction rule: reachable.induct)
  case (init v c)
  show ?case by (rule queue_inv_new_queue)
next
  case (step q e q')
  then show ?case by (blast intro: queue_inv_exec_event)
qed

end
