(* ===== verification/Run_Facts.thy ===== *)
theory Run_Facts
  imports Chain_Inv
begin

text \<open>
  Facts about single events and runs that the properties of the queue share: the
  chain and its settled values only grow at the end, only \<open>openQueue\<close> moves the
  opening counter, no event changes the settled values of a rejected chain that
  stands at a step without a rejection handler, a task whose step settled other than
  fulfilled is never counted as complete, and a future other than a pending drain
  request keeps its target. The consequences of the
  invariant for reachable states are stated here too, once, for the properties to use.
\<close>

subsection \<open>The chain only grows\<close>

lemma fireDrainWaiters_pipeline: "\<exists>zs. pipeline (fireDrainWaiters ws q) = pipeline q @ zs"
proof (induction ws arbitrary: q)
  case Nil
  then show ?case by simp
next
  case (Cons w ws)
  let ?q = "closeQueue (q\<lparr>drainWaiters := ws, futures := (futures q)[w := DrainFired (length (pipeline q))]\<rparr>)"
  obtain zs where "pipeline (fireDrainWaiters ws ?q) = pipeline ?q @ zs" using Cons.IH by blast
  moreover have "\<exists>ys. pipeline ?q = pipeline q @ ys"
    using closeQueue_pipeline_prefix [of "q\<lparr>drainWaiters := ws, futures := (futures q)[w := DrainFired (length (pipeline q))]\<rparr>"]
    by simp
  ultimately show ?case by auto
qed

lemma registerTaskCompletion_pipeline: "\<exists>zs. pipeline (registerTaskCompletion q) = pipeline q @ zs"
proof (cases "queueLength q = Suc (tasksComplete q)")
  case True
  then have "registerTaskCompletion q =
      fireDrainWaiters (drainWaiters q) (q\<lparr>tasksComplete := Suc (tasksComplete q)\<rparr>)"
    by (simp add: registerTaskCompletion_def)
  then show ?thesis
    using fireDrainWaiters_pipeline [of "drainWaiters q" "q\<lparr>tasksComplete := Suc (tasksComplete q)\<rparr>"]
    by simp
next
  case False
  then have "pipeline (registerTaskCompletion q) = pipeline q @ []"
    by (simp add: registerTaskCompletion_def)
  then show ?thesis by blast
qed

lemma stageReached_grows:
  "pipeline (stageReached st q) = pipeline q \<and> (\<exists>ys. outputs (stageReached st q) = outputs q @ ys)"
proof (cases st)
  case (Closure n)
  show ?thesis
  proof (cases "current q")
    case (Fulfilled x)
    with Closure show ?thesis
      by (cases "n \<le> numberOfOpenings q") (simp_all add: closureReached_outputs)
  next
    case Rejected
    with Closure show ?thesis by simp
  qed
qed (cases "current q"; simp)+

lemma settle_grows:
  "(\<exists>zs. pipeline (registerTaskCompletion (completeStage r q)) = pipeline q @ zs) \<and>
   outputs (registerTaskCompletion (completeStage r q)) = outputs q @ [r]"
  using registerTaskCompletion_pipeline [of "completeStage r q"] by simp

lemma exec_event_grows:
  assumes "exec_event e q = Some q'"
  shows "\<exists>zs. pipeline q' = pipeline q @ zs" and "\<exists>ys. outputs q' = outputs q @ ys"
proof -
  have "(\<exists>zs. pipeline q' = pipeline q @ zs) \<and> (\<exists>ys. outputs q' = outputs q @ ys)"
  proof (cases e)
    case (PushFunction a ci cb t)
    with assms show ?thesis by auto
  next
    case (PushPromise a ci p)
    with assms show ?thesis by auto
  next
    case CloseAndGetResult
    with assms show ?thesis using closeQueue_pipeline_prefix [of q] by auto
  next
    case DrainThenClose
    with assms show ?thesis using closeQueue_pipeline_prefix [of q] by auto
  next
    case Open
    with assms show ?thesis by (auto simp: openQueue_outputs)
  next
    case ChainAdvance
    with assms have "q' = stageReached (pipeline q ! position q) q"
      by (auto dest: chainAdvances_SomeD)
    then show ?thesis using stageReached_grows [of "pipeline q ! position q" q] by auto
  next
    case TimerFire
    with assms obtain r where "q' = registerTaskCompletion (completeStage r q)"
      by (auto dest!: timerFires_SomeD)
    then show ?thesis using settle_grows [of r q] by blast
  next
    case PromiseSettle
    with assms obtain r where q': "q' = (case r of Fulfilled w \<Rightarrow> registerTaskCompletion (completeStage (Fulfilled w) q)
                   | Rejected \<Rightarrow> completeStage Rejected q)"
      by (auto dest!: promiseSettles_SomeD)
    show ?thesis
    proof (cases r)
      case (Fulfilled w)
      then show ?thesis using q' settle_grows [of "Fulfilled w" q] by auto
    next
      case Rejected
      then show ?thesis using q' by simp
    qed
  qed
  then show "\<exists>zs. pipeline q' = pipeline q @ zs" and "\<exists>ys. outputs q' = outputs q @ ys"
    by blast+
qed

lemma run_grows:
  assumes "run es q = Some q'"
  shows "\<exists>zs. pipeline q' = pipeline q @ zs" and "\<exists>ys. outputs q' = outputs q @ ys"
  using assms
proof (induction es arbitrary: q)
  case Nil
  { case 1 then show ?case by simp }
  { case 2 then show ?case by simp }
next
  case (Cons e es)
  { case 1
    then obtain q1 where e: "exec_event e q = Some q1" and r: "run es q1 = Some q'"
      by (auto split: option.splits)
    from exec_event_grows(1) [OF e] Cons.IH(1) [OF r] show ?case by force }
  { case 2
    then obtain q1 where e: "exec_event e q = Some q1" and r: "run es q1 = Some q'"
      by (auto split: option.splits)
    from exec_event_grows(2) [OF e] Cons.IH(2) [OF r] show ?case by force }
qed

subsection \<open>Only \<open>openQueue\<close> counts openings\<close>

lemma fireDrainWaiters_openings: "numberOfOpenings (fireDrainWaiters ws q) = numberOfOpenings q"
  by simp

lemma stageReached_openings: "numberOfOpenings (stageReached st q) = numberOfOpenings q"
  by (cases st; cases "current q") simp_all

lemma exec_event_openings:
  assumes "\<not> is_open_event e" and "exec_event e q = Some q'"
  shows "numberOfOpenings q' = numberOfOpenings q"
proof (cases e)
  case ChainAdvance
  with assms have "q' = stageReached (pipeline q ! position q) q"
    by (auto dest: chainAdvances_SomeD)
  then show ?thesis by (simp add: stageReached_openings)
next
  case TimerFire
  with assms show ?thesis by (auto dest!: timerFires_SomeD)
next
  case PromiseSettle
  with assms show ?thesis by (auto dest!: promiseSettles_SomeD split: settled.splits)
qed (use assms in auto)

lemma run_openings:
  "run es q = Some q' \<Longrightarrow> \<not> list_ex is_open_event es \<Longrightarrow> numberOfOpenings q' = numberOfOpenings q"
proof (induction es arbitrary: q)
  case Nil
  then show ?case by simp
next
  case (Cons e es)
  then obtain q1 where e: "exec_event e q = Some q1" and r: "run es q1 = Some q'"
    by (auto split: option.splits)
  with Cons.prems Cons.IH [OF r] exec_event_openings [OF _ e] show ?case by simp
qed

subsection \<open>Counting completed tasks\<close>

text \<open>A task whose step settled other than fulfilled is never counted as complete.\<close>

lemma counts_ok_unfulfilled_task:
  assumes "counts_ok q" and "shape_ok q" and "Suc k < length (outputs q)"
    and "is_task (pipeline q ! k)" and "\<not> is_fulfilled (outputs q ! Suc k)"
  shows "tasksComplete q < queueLength q"
proof -
  have k: "k < length (pipeline q)" using assms(2,3) by (simp add: shape_ok_def)
  have "length (filter registers (zip (pipeline q) (tl (outputs q)))) \<noteq> length (filter is_task (pipeline q))"
    unfolding registers_eq
    using filter_zip_count_eq [of is_task is_fulfilled "pipeline q" "tl (outputs q)" k] k assms(3-5)
    by (auto simp: nth_tl)
  moreover have "length (filter registers (zip (pipeline q) (tl (outputs q)))) \<le> length (filter is_task (pipeline q))"
    unfolding registers_eq by (rule filter_zip_count_le)
  ultimately show ?thesis using assms(1) by (simp add: counts_ok_def)
qed

subsection \<open>Reachable states\<close>

lemma reachable_run_new: "run es (new_queue v c) = Some q \<Longrightarrow> reachable q"
  by (rule reachable_run [OF reachable.init])

lemma reachable_the_run:
  "run es (new_queue v c) \<noteq> None \<Longrightarrow> reachable (the (run es (new_queue v c)))"
  by (auto intro: reachable_run_new)

lemma reachable_inv_parts:
  assumes "reachable q"
  shows "shape_ok q" "head_ok q" "fifo_ok q" "counts_ok q" "closures_ok q" "futures_ok q"
    "drained_ok q" "subscribers_ok q" "waiters_ok q"
  using queue_invD [OF reachable_queue_inv [OF assms]] by simp_all

text \<open>Every barrier the chain has passed had its number covered by the openings.\<close>

lemma reachable_passed:
  assumes "reachable q" and "k < position q" and "pipeline q ! k = Closure n"
  shows "n \<le> numberOfOpenings q"
proof -
  from reachable_queue_inv [OF assms(1)] have "closures_ok q" by (simp add: queue_inv_def core_inv_def)
  then have "list_all (passed_ok (numberOfOpenings q)) (take (position q) (pipeline q))"
    by (simp add: closures_ok_def)
  moreover have "k < length (pipeline q)"
    using assms(2) shape_ok_position(2) [of q] reachable_queue_inv [OF assms(1)]
    by (simp add: queue_inv_def core_inv_def)
  ultimately show ?thesis using assms(2,3)
    by (auto simp: list_all_length)
qed

subsection \<open>A rejected chain at a step without a rejection handler\<close>

lemma rejected_head_phase:
  assumes "head_ok q" and "current q = Rejected" and "\<not> passes_rejection (pipeline q ! position q)"
  shows "headPhase q = Idle \<or> headPhase q = Stalled"
  using assms unfolding head_ok_def
  by (cases "pipeline q ! position q"; cases "headPhase q") auto

lemma exec_event_rejected_head:
  assumes "reachable q" and "current q = Rejected" and "\<not> passes_rejection (pipeline q ! position q)"
    and "exec_event e q = Some q'"
  shows "outputs q' = outputs q \<and> (\<exists>zs. pipeline q' = pipeline q @ zs)"
proof -
  have ph: "headPhase q = Idle \<or> headPhase q = Stalled"
    using rejected_head_phase [OF reachable_inv_parts(2) [OF assms(1)] assms(2,3)] .
  show ?thesis
  proof (cases e)
    case ChainAdvance
    with assms(2-4) show ?thesis
      by (cases "pipeline q ! position q") (auto dest!: chainAdvances_SomeD)
  next
    case TimerFire
    with assms(4) ph show ?thesis by (auto dest!: timerFires_SomeD)
  next
    case PromiseSettle
    with assms(4) ph show ?thesis by (auto dest!: promiseSettles_SomeD)
  next
    case Open
    with assms(4) ph show ?thesis by (auto simp: openQueue_outputs)
  qed (use assms(4) closeQueue_pipeline_prefix in auto)
qed

subsection \<open>Futures other than pending drain requests are kept\<close>

lemma fireDrainWaiters_futures_other:
  "k \<notin> set ws \<Longrightarrow> futures (fireDrainWaiters ws q) ! k = futures q ! k"
  by (induction ws arbitrary: q) auto

lemma registerTaskCompletion_futures:
  "w \<notin> set (drainWaiters q) \<Longrightarrow> futures (registerTaskCompletion q) ! w = futures q ! w"
  by (simp add: registerTaskCompletion_def Let_def fireDrainWaiters_futures_other)

lemma stageReached_futures [simp]: "futures (stageReached st q) = futures q"
  by (cases st; cases "current q") simp_all

lemma exec_event_futures:
  assumes "reachable q" and "exec_event e q = Some q'" and "futures q ! w \<noteq> DrainPending"
    and "w < length (futures q)"
  shows "length (futures q) \<le> length (futures q') \<and> futures q' ! w = futures q ! w"
proof -
  have nw: "w \<notin> set (drainWaiters q)"
    using reachable_inv_parts(6) [OF assms(1)] assms(3,4) by (auto simp: futures_ok_def)
  show ?thesis
  proof (cases e)
    case ChainAdvance
    with assms(2) show ?thesis by (auto dest!: chainAdvances_SomeD)
  next
    case TimerFire
    with assms(2) nw show ?thesis
      by (auto dest!: timerFires_SomeD simp: registerTaskCompletion_futures completeStage_def)
  next
    case PromiseSettle
    with assms(2) nw show ?thesis
      by (auto dest!: promiseSettles_SomeD simp: registerTaskCompletion_futures completeStage_def
          split: settled.splits)
  qed (use assms(2,4) in \<open>auto simp: closeQueueAndGetFinalResult_def getFinalResultAndCloseWhenAllTasksComplete_def
         pushFunctionToQueue_def pushPromiseToQueue_def
         Let_def nth_append\<close>)
qed

lemma run_futures:
  assumes "reachable q" and "run es q = Some q'" and "futures q ! w \<noteq> DrainPending"
    and "w < length (futures q)"
  shows "w < length (futures q') \<and> futures q' ! w = futures q ! w"
  using assms
proof (induction es arbitrary: q)
  case Nil
  then show ?case by simp
next
  case (Cons e es)
  then obtain q1 where e: "exec_event e q = Some q1" and r: "run es q1 = Some q'"
    by (auto split: option.splits)
  from exec_event_futures [OF Cons.prems(1) e Cons.prems(3,4)]
  have "w < length (futures q1)" and "futures q1 ! w = futures q ! w"
    using Cons.prems(4) by auto
  with Cons.IH [OF reachable.step [OF Cons.prems(1) e] r] Cons.prems(3) show ?case by simp
qed

end
