(* ===== verification/JS_Text.thy ===== *)
theory JS_Text
  imports Prelude Complex_Main
begin

text \<open>
  The JavaScript number formatting and parsing the component uses: \<open>toString\<close> of a
  natural number or an integer, \<open>toFixed(1)\<close> of a number of tenths (the clock,
  app.component.ts line 61), and \<open>parseFloat\<close> (lines 119 and 130), which reads
  the longest decimal prefix \<open>digits[.digits]\<close> of a string and gives \<open>NaN\<close>
  (here \<open>None\<close>) when there is none. Numbers are the exact rationals the decimal
  strings denote; JavaScript keeps the nearest double, whose printed form is the same
  decimal for the values the component produces.
\<close>

subsection \<open>Printing\<close>

definition digit_char :: "nat \<Rightarrow> char" where
  "digit_char d = char_of (48 + d)"

fun nat_digits :: "nat \<Rightarrow> nat list" where
  "nat_digits n = (if n < 10 then [n] else nat_digits (n div 10) @ [n mod 10])"

fun string_of_nat :: "nat \<Rightarrow> string" where
  "string_of_nat n = (if n < 10 then [digit_char n] else string_of_nat (n div 10) @ [digit_char (n mod 10)])"

declare nat_digits.simps [simp del] string_of_nat.simps [simp del]

definition string_of_int :: "int \<Rightarrow> string" where
  "string_of_int i = (if i < 0 then ''-'' @ string_of_nat (nat (- i)) else string_of_nat (nat i))"

text \<open>\<open>x.toFixed(1)\<close> for \<open>x\<close> a whole number \<open>t\<close> of tenths.\<close>

definition toFixed1 :: "nat \<Rightarrow> string" where
  "toFixed1 t = string_of_nat (t div 10) @ ''.'' @ [digit_char (t mod 10)]"

text \<open>\<open>toString\<close> of a number that is a whole number \<open>t\<close> of tenths: no trailing \<open>.0\<close>.\<close>

definition tenths_string :: "nat \<Rightarrow> string" where
  "tenths_string t =
     (if t mod 10 = 0 then string_of_nat (t div 10)
      else string_of_nat (t div 10) @ ''.'' @ [digit_char (t mod 10)])"

text \<open>
  \<open>toString\<close> of a number kept as a rational, \<open>NaN\<close> as \<open>None\<close>; the component only
  prints non-negative whole numbers of tenths (those are read exactly).
\<close>

definition js_number_string :: "rat option \<Rightarrow> string" where
  "js_number_string x = (case x of None \<Rightarrow> ''NaN'' | Some r \<Rightarrow> tenths_string (nat \<lfloor>r * 10\<rfloor>))"

text \<open>\<open>ToNumber\<close> of a number or \<open>null\<close> (\<open>None\<close>), as arithmetic applies it: \<open>null\<close> is 0.\<close>

fun js_number_of :: "int option \<Rightarrow> int" where
  "js_number_of None = 0"
| "js_number_of (Some v) = v"

subsection \<open>Parsing\<close>

definition digit_val :: "char \<Rightarrow> nat option" where
  "digit_val c = (let n = of_char c in if 48 \<le> n \<and> n \<le> 57 then Some (n - 48) else None)"

fun span_digits :: "string \<Rightarrow> nat list \<times> string" where
  "span_digits [] = ([], [])"
| "span_digits (c # cs) =
     (case digit_val c of
        None \<Rightarrow> ([], c # cs)
      | Some d \<Rightarrow> (case span_digits cs of (ds, r) \<Rightarrow> (d # ds, r)))"

definition digits_value :: "nat list \<Rightarrow> nat" where
  "digits_value ds = foldl (\<lambda>acc d. 10 * acc + d) 0 ds"

definition parseFloat :: "string \<Rightarrow> rat option" where
  "parseFloat s =
     (case span_digits s of
        (ds, CHR ''.'' # r) \<Rightarrow>
          (case span_digits r of
             (fs, _) \<Rightarrow>
               if ds = [] \<and> fs = [] then None
               else Some (of_nat (digits_value ds) + of_nat (digits_value fs) / 10 ^ length fs))
      | (ds, _) \<Rightarrow> if ds = [] then None else Some (of_nat (digits_value ds)))"

declare digit_char_def [text_defs] char_of_def [text_defs] bit_0 [text_defs]
  string_of_nat.simps [text_defs] string_of_int_def [text_defs] toFixed1_def [text_defs]
  tenths_string_def [text_defs] js_number_string_def [text_defs] digit_val_def [text_defs]
  parseFloat_def [text_defs] digits_value_def [text_defs]

subsection \<open>Printed digits read back\<close>

lemma string_of_nat_digits: "string_of_nat n = map digit_char (nat_digits n)"
proof (induction n rule: nat_digits.induct)
  case (1 n)
  then show ?case by (simp add: nat_digits.simps [of n] string_of_nat.simps [of n])
qed

lemma nat_digits_lt: "d \<in> set (nat_digits n) \<Longrightarrow> d < 10"
proof (induction n rule: nat_digits.induct)
  case (1 n)
  then show ?case by (auto simp: nat_digits.simps [of n] split: if_splits)
qed

lemma nat_digits_ne [simp]: "nat_digits n \<noteq> []"
  by (simp add: nat_digits.simps [of n])

lemma digit_val_digit_char [simp]: "d < 10 \<Longrightarrow> digit_val (digit_char d) = Some d"
  by (simp add: digit_val_def digit_char_def)

lemma digit_val_point [simp]: "digit_val CHR ''.'' = None"
  by (simp add: digit_val_def)

lemma span_digits_map:
  "(\<forall>d \<in> set ds. d < 10) \<Longrightarrow> (r = [] \<or> digit_val (hd r) = None) \<Longrightarrow>
   span_digits (map digit_char ds @ r) = (ds, r)"
proof (induction ds)
  case Nil
  then show ?case by (cases r) auto
qed simp

lemma digits_value_snoc [simp]: "digits_value (ds @ [d]) = 10 * digits_value ds + d"
  by (simp add: digits_value_def)

lemma digits_value_single [simp]: "digits_value [d] = d"
  by (simp add: digits_value_def)

lemma digits_value_nat_digits [simp]: "digits_value (nat_digits n) = n"
proof (induction n rule: nat_digits.induct)
  case (1 n)
  then show ?case by (simp add: nat_digits.simps [of n] digits_value_def)
qed

lemma span_digits_string_of_nat:
  "(r = [] \<or> digit_val (hd r) = None) \<Longrightarrow> span_digits (string_of_nat n @ r) = (nat_digits n, r)"
  unfolding string_of_nat_digits by (rule span_digits_map) (auto dest: nat_digits_lt)

lemma parseFloat_point_digit:
  "d < 10 \<Longrightarrow> parseFloat (string_of_nat n @ ''.'' @ [digit_char d]) = Some (of_nat n + of_nat d / 10)"
  using span_digits_string_of_nat [of "''.'' @ [digit_char d]" n]
    span_digits_map [of "[d]" "[]"]
  by (simp add: parseFloat_def)

lemma tenths_split: "(of_nat (t div 10) :: rat) + of_nat (t mod 10) / 10 = of_nat t / 10"
proof -
  have "t = 10 * (t div 10) + t mod 10" by simp
  then have "(of_nat t :: rat) = 10 * of_nat (t div 10) + of_nat (t mod 10)"
    by (metis of_nat_add of_nat_mult of_nat_numeral)
  then show ?thesis by (simp add: field_simps)
qed

lemma parseFloat_toFixed1: "parseFloat (toFixed1 t) = Some (of_nat t / 10)"
  using parseFloat_point_digit [of "t mod 10" "t div 10"] by (simp add: toFixed1_def tenths_split)


end
