(* ===== verification/App.thy ===== *)
theory App
  imports Run_Facts JS_Text
begin

text \<open>
  The Angular component that drives the queue (src/src/app/app.component.ts), as a
  client of the queue model. Its fields are the record \<open>AppComponent\<close>; its public
  methods and the ticks of its clock are macrotasks (datatype \<open>app_event\<close>), each
  followed by the microtasks JavaScript runs before the next macrotask: the chain
  advances as far as it can (\<open>flushChain\<close>; reaching an asynchronous task calls
  \<open>promiseToPushToQueue\<close>, which starts a timer) and the \<open>then\<close> callbacks of the two
  halting buttons run once their promise has fulfilled (\<open>runHaltCallbacks\<close>). The
  timers of \<open>promiseToPushToQueue\<close> carry the reset generation they were started in
  (\<open>signalValue\<close>) and the total they will publish.
\<close>

subsection \<open>Data\<close>

text \<open>
  A number read from a form control is \<open>null\<close> when the field is empty: \<open>None\<close>
  below. JavaScript arithmetic reads \<open>null\<close> as 0 (\<open>js_number_of\<close>).
\<close>

record InputToTask =
  runningTotal_input :: int
  increment :: "int option"
  delayInMilliseconds :: int

record DataFromForm =
  taskValue :: "int option"
  taskTimeInSeconds :: "int option"

type_synonym app_queue = "(int, InputToTask, DataFromForm) queue"

text \<open>Which halting button registered a callback on a returned promise.\<close>

datatype halt = CloseThenFinish | FinishThenClose

text \<open>
  The component's state. \<open>elapsedTime\<close> is in milliseconds; \<open>lastTimeCheck\<close> is
  the number \<open>parseFloat\<close> read from the clock's text (\<open>None\<close> for \<open>NaN\<close>). \<open>timers\<close> are the
  \<open>setTimeout\<close>s of \<open>promiseToPushToQueue\<close> in flight, \<open>haltCallbacks\<close> the callbacks
  the halting buttons attached to promises of the current queue (with the promise),
  \<open>formTaskValue\<close> and \<open>formTaskTime\<close> the values of the two controls of \<open>form\<close>.
\<close>

record AppComponent =
  elapsedTime :: nat
  runningTotal :: int
  waitingToFinish :: bool
  finalMessageVisible :: bool
  resetCounter :: nat
  isInInitialState :: bool
  lastTotal :: int
  lastTimeCheck :: "rat option"
  asyncChainQueue :: app_queue
  timers :: "(nat \<times> int) list"
  haltCallbacks :: "(nat \<times> halt) list"
  formTaskValue :: "int option"
  formTaskTime :: "int option"

datatype app_event = Tick | Reset | EditTaskValue "int option" | EditTaskTime "int option" | Submit
  | HaltCloseThenFinish | HaltFinishThenClose
  | OpenQueueButton | TimerFires nat

subsection \<open>The task the component submits\<close>

definition createArgumentsForTask :: "int \<Rightarrow> DataFromForm \<Rightarrow> InputToTask" where
  "createArgumentsForTask outputFromLastStep dataFromForm =
     \<lparr>runningTotal_input = outputFromLastStep, increment = taskValue dataFromForm,
      delayInMilliseconds = 1000 * js_number_of (taskTimeInSeconds dataFromForm)\<rparr>"

text \<open>\<open>const newRunningTotal = args.runningTotal + args.increment\<close> (line 153).\<close>

definition newRunningTotal :: "InputToTask \<Rightarrow> int" where
  "newRunningTotal args = runningTotal_input args + js_number_of (increment args)"

text \<open>
  The value the promise of \<open>promiseToPushToQueue\<close> fulfils with when its timer fires
  in the generation it was started in (lines 153-157).
\<close>

definition promiseToPushToQueue :: "InputToTask \<Rightarrow> int settled option" where
  "promiseToPushToQueue args = Some (Fulfilled (newRunningTotal args))"

subsection \<open>Getters\<close>

definition tickPeriod :: nat where
  "tickPeriod = 100"

text \<open>
  \<open>(0.001 * this.elapsedTime).toFixed(1)\<close>: the clock only moves by \<open>tickPeriod\<close>, so
  it shows the whole number of tenths of a second elapsed.
\<close>

definition Clock :: "AppComponent \<Rightarrow> string" where
  "Clock s = toFixed1 (elapsedTime s div 100)"

definition RunningTotal :: "AppComponent \<Rightarrow> string" where
  "RunningTotal s = string_of_int (runningTotal s)"

definition QueueIsClosed :: "AppComponent \<Rightarrow> bool" where
  "QueueIsClosed s = IsClosed (asyncChainQueue s)"

definition WaitingToFinish :: "AppComponent \<Rightarrow> bool" where
  "WaitingToFinish s = waitingToFinish s"

definition ShowFinalMessage :: "AppComponent \<Rightarrow> bool" where
  "ShowFinalMessage s = finalMessageVisible s"

definition OpenOrClosedStatus :: "AppComponent \<Rightarrow> string" where
  "OpenOrClosedStatus s =
     (if QueueIsClosed s
      then ''Queue is CLOSED. New Tasks submitted will not start until Queue re-opens. Click to re-open.''
      else if WaitingToFinish s then ''Queue is OPEN until it finishes. Tasks can still be added.''
      else ''Queue is currently OPEN.'')"

definition FinalMessage :: "AppComponent \<Rightarrow> string" where
  "FinalMessage s =
     (if ShowFinalMessage s
      then ''All tasks processed in '' @ Clock s @ '' seconds. Final total is '' @ RunningTotal s @ ''.''
      else if isInInitialState s
      then ''Add Tasks to Queue, then click one of the two Stop buttons to halt the Queue.''
      else ''Queue has been re-opened. The last update was '' @ string_of_int (lastTotal s) @
        '' after '' @ js_number_string (lastTimeCheck s) @ '' seconds.'')"

subsection \<open>Construction and the macrotasks\<close>

definition new_component :: AppComponent where
  "new_component =
     \<lparr>elapsedTime = 0, runningTotal = 0, waitingToFinish = False, finalMessageVisible = False,
      resetCounter = 0, isInInitialState = True, lastTotal = 0, lastTimeCheck = Some 0,
      asyncChainQueue = new_queue 0 False, timers = [], haltCallbacks = [],
      formTaskValue = Some 1, formTaskTime = Some 4\<rparr>"

text \<open>
  The validators of the two controls (lines 42-43): required, and within
  \<open>0..100\<close> and \<open>0..10\<close>.
\<close>

definition formValid :: "AppComponent \<Rightarrow> bool" where
  "formValid s \<longleftrightarrow>
     (case formTaskValue s of None \<Rightarrow> False | Some v \<Rightarrow> 0 \<le> v \<and> v \<le> 100) \<and>
     (case formTaskTime s of None \<Rightarrow> False | Some t \<Rightarrow> 0 \<le> t \<and> t \<le> 10)"

text \<open>A tick of \<open>timingStream\<close>: filtered out while the final message is shown.\<close>

definition timingTick :: "AppComponent \<Rightarrow> AppComponent" where
  "timingTick s = (if ShowFinalMessage s then s else s\<lparr>elapsedTime := elapsedTime s + tickPeriod\<rparr>)"

text \<open>
  \<open>reset\<close> replaces the queue. The timers already started keep running; the promises
  and callbacks of the discarded queue are dropped with it (its chain can no longer
  move: its timers fail the generation check).
\<close>

definition reset :: "AppComponent \<Rightarrow> AppComponent" where
  "reset s = s\<lparr>resetCounter := Suc (resetCounter s), finalMessageVisible := False,
     isInInitialState := True, waitingToFinish := False, elapsedTime := 0, runningTotal := 0,
     asyncChainQueue := new_queue 0 False, haltCallbacks := []\<rparr>"

text \<open>\<open>onSubmit\<close> reads the two controls as they are; it does not consult the validators.\<close>

definition onSubmit :: "AppComponent \<Rightarrow> AppComponent" where
  "onSubmit s =
     s\<lparr>asyncChainQueue := pushPromiseToQueue \<lparr>taskValue = formTaskValue s, taskTimeInSeconds = formTaskTime s\<rparr>
        createArgumentsForTask promiseToPushToQueue (asyncChainQueue s)\<rparr>"

definition halt_closeThenFinish :: "AppComponent \<Rightarrow> AppComponent" where
  "halt_closeThenFinish s =
     (case closeQueueAndGetFinalResult (asyncChainQueue s) of
        (q, w) \<Rightarrow> s\<lparr>asyncChainQueue := q, haltCallbacks := haltCallbacks s @ [(w, CloseThenFinish)]\<rparr>)"

definition halt_finishThenClose :: "AppComponent \<Rightarrow> AppComponent" where
  "halt_finishThenClose s =
     (case getFinalResultAndCloseWhenAllTasksComplete (asyncChainQueue s) of
        (q, w) \<Rightarrow> s\<lparr>waitingToFinish := True, asyncChainQueue := q,
                    haltCallbacks := haltCallbacks s @ [(w, FinishThenClose)]\<rparr>)"

definition openQueue_button :: "AppComponent \<Rightarrow> AppComponent" where
  "openQueue_button s =
     s\<lparr>finalMessageVisible := False, waitingToFinish := False,
       asyncChainQueue := openQueue (asyncChainQueue s)\<rparr>"

text \<open>
  Timer \<open>k\<close> of \<open>promiseToPushToQueue\<close> fires (lines 154-159): in the generation it
  was started in it publishes the total and resolves the task's promise, otherwise it
  does nothing.
\<close>

definition timerCallback :: "nat \<Rightarrow> AppComponent \<Rightarrow> AppComponent option" where
  "timerCallback k s =
     (if k < length (timers s) then
        (case timers s ! k of
           (signalValue, newTotal) \<Rightarrow>
             let s1 = s\<lparr>timers := take k (timers s) @ drop (Suc k) (timers s)\<rparr>
             in if resetCounter s = signalValue
                then Some (s1\<lparr>runningTotal := newTotal,
                   asyncChainQueue := (case promiseSettles (asyncChainQueue s) of
                                         Some q \<Rightarrow> q | None \<Rightarrow> asyncChainQueue s)\<rparr>)
                else Some s1)
      else None)"

subsection \<open>The microtasks\<close>

text \<open>
  The chain reaches its next step; when that step is an asynchronous task,
  \<open>promiseToPushToQueue\<close> is called on its input and starts its timer with the
  current generation (lines 150-154).
\<close>

definition startTask :: "AppComponent \<Rightarrow> AppComponent" where
  "startTask s =
     (case headPhase (asyncChainQueue s) of
        AwaitingPromise i \<Rightarrow>
          s\<lparr>timers := timers s @ [(resetCounter s, newRunningTotal i)]\<rparr>
      | _ \<Rightarrow> s)"

fun flushChain :: "nat \<Rightarrow> AppComponent \<Rightarrow> AppComponent" where
  "flushChain 0 s = s"
| "flushChain (Suc n) s =
     (case chainAdvances (asyncChainQueue s) of
        None \<Rightarrow> s
      | Some q \<Rightarrow> flushChain n (startTask (s\<lparr>asyncChainQueue := q\<rparr>)))"

text \<open>The callbacks of the halting buttons (lines 115-121 and 126-132).\<close>

fun haltCallback :: "halt \<Rightarrow> AppComponent \<Rightarrow> AppComponent" where
  "haltCallback CloseThenFinish s =
     s\<lparr>isInInitialState := False, lastTotal := runningTotal s, lastTimeCheck := parseFloat (Clock s),
       finalMessageVisible := IsClosed (asyncChainQueue s)\<rparr>"
| "haltCallback FinishThenClose s =
     s\<lparr>waitingToFinish := False, isInInitialState := False, lastTotal := runningTotal s,
       lastTimeCheck := parseFloat (Clock s), finalMessageVisible := IsClosed (asyncChainQueue s)\<rparr>"

fun is_resolved :: "'v settled option \<Rightarrow> bool" where
  "is_resolved (Some (Fulfilled v)) = True"
| "is_resolved _ = False"

text \<open>
  Run, in order, the callbacks whose promise has fulfilled; the others stay attached.
\<close>

fun runHaltCallbacks :: "(nat \<times> halt) list \<Rightarrow> AppComponent \<Rightarrow> AppComponent" where
  "runHaltCallbacks [] s = s"
| "runHaltCallbacks ((w, h) # cs) s =
     (if is_resolved (future_result (asyncChainQueue s) w)
      then runHaltCallbacks cs (haltCallback h s)
      else runHaltCallbacks cs (s\<lparr>haltCallbacks := haltCallbacks s @ [(w, h)]\<rparr>))"

text \<open>
  All microtasks after a macrotask: the chain advances until no step can be reached
  (one step more than the chain is long is enough fuel: see \<open>flushChain_quiescent\<close>),
  then the resolved callbacks run.
\<close>

definition microtasks :: "AppComponent \<Rightarrow> AppComponent" where
  "microtasks s =
     (let s1 = flushChain (Suc (length (pipeline (asyncChainQueue s)))) s
      in runHaltCallbacks (haltCallbacks s1) (s1\<lparr>haltCallbacks := []\<rparr>))"

fun macrotask :: "app_event \<Rightarrow> AppComponent \<Rightarrow> AppComponent option" where
  "macrotask Tick s = Some (timingTick s)"
| "macrotask Reset s = Some (reset s)"
| "macrotask (EditTaskValue v) s = Some (s\<lparr>formTaskValue := v\<rparr>)"
| "macrotask (EditTaskTime t) s = Some (s\<lparr>formTaskTime := t\<rparr>)"
| "macrotask Submit s = Some (onSubmit s)"
| "macrotask HaltCloseThenFinish s = Some (halt_closeThenFinish s)"
| "macrotask HaltFinishThenClose s = Some (halt_finishThenClose s)"
| "macrotask OpenQueueButton s = Some (openQueue_button s)"
| "macrotask (TimerFires k) s = timerCallback k s"

definition app_step :: "app_event \<Rightarrow> AppComponent \<Rightarrow> AppComponent option" where
  "app_step e s = map_option microtasks (macrotask e s)"

fun app_run :: "app_event list \<Rightarrow> AppComponent \<Rightarrow> AppComponent option" where
  "app_run [] s = Some s"
| "app_run (e # es) s = (case app_step e s of None \<Rightarrow> None | Some s' \<Rightarrow> app_run es s')"

inductive app_reachable :: "AppComponent \<Rightarrow> bool" where
  init: "app_reachable new_component"
| step: "app_reachable s \<Longrightarrow> app_step e s = Some s' \<Longrightarrow> app_reachable s'"

named_theorems app_defs "definitions of the component, unfolded to evaluate a concrete run"

declare createArgumentsForTask_def [app_defs] promiseToPushToQueue_def [app_defs]
  tickPeriod_def [app_defs] Clock_def [app_defs] QueueIsClosed_def [app_defs]
  RunningTotal_def [app_defs] FinalMessage_def [app_defs] WaitingToFinish_def [app_defs]
  ShowFinalMessage_def [app_defs] OpenOrClosedStatus_def [app_defs]
  new_component_def [app_defs] timingTick_def [app_defs] reset_def [app_defs]
  onSubmit_def [app_defs] newRunningTotal_def [app_defs] formValid_def [app_defs] halt_closeThenFinish_def [app_defs] halt_finishThenClose_def [app_defs]
  openQueue_button_def [app_defs] timerCallback_def [app_defs] startTask_def [app_defs]
  microtasks_def [app_defs] app_step_def [app_defs]

end
