(* ===== verification/App_Inv.thy ===== *)
theory App_Inv
  imports App
begin

text \<open>
  What the component's microtasks and macrotasks do to the queue it owns: they only
  apply the queue's own operations (so every queue the component holds is a reachable
  queue state), the flush of the chain has enough fuel to reach a state where no step
  can be reached, and the callbacks of the halting buttons leave the queue alone.
\<close>

subsection \<open>Definitions\<close>

text \<open>
  Fuel: while the head is idle, at most one reachable step per remaining step of the
  chain; a step that suspends the head ends the flush.
\<close>

definition pending_steps :: "('v, 'i, 'r) queue \<Rightarrow> nat" where
  "pending_steps q = (if headPhase q = Idle then Suc (length (pipeline q)) - length (outputs q) else 0)"

text \<open>
  The component invariant. The chain holds only the component's tasks and barriers;
  its value is the total on display; every timer was started in this generation or
  an earlier one, and the timers of this generation are exactly the one of the task
  the chain awaits, with the total it will publish; the final message is shown only
  while the queue is closed.
\<close>

fun app_stage :: "(int, InputToTask, DataFromForm) stage \<Rightarrow> bool" where
  "app_stage (PromiseTask a ci p) \<longleftrightarrow> ci = createArgumentsForTask \<and> p = promiseToPushToQueue"
| "app_stage (Closure n) \<longleftrightarrow> True"
| "app_stage (FunctionTask a ci cb t) \<longleftrightarrow> False"

definition current_generation :: "AppComponent \<Rightarrow> (nat \<times> int) list" where
  "current_generation s = filter (\<lambda>(g, v). g = resetCounter s) (timers s)"

fun started_timer :: "nat \<Rightarrow> InputToTask phase \<Rightarrow> (nat \<times> int) list" where
  "started_timer g (AwaitingPromise i) = [(g, newRunningTotal i)]"
| "started_timer g _ = []"

definition expected_timers :: "AppComponent \<Rightarrow> (nat \<times> int) list" where
  "expected_timers s = started_timer (resetCounter s) (headPhase (asyncChainQueue s))"

definition app_inv :: "AppComponent \<Rightarrow> bool" where
  "app_inv s \<longleftrightarrow> reachable (asyncChainQueue s) \<and> list_all app_stage (pipeline (asyncChainQueue s)) \<and>
     current (asyncChainQueue s) = Fulfilled (runningTotal s) \<and>
     list_all (\<lambda>(g, v). g \<le> resetCounter s) (timers s) \<and> current_generation s = expected_timers s \<and>
     (finalMessageVisible s \<longrightarrow> queueIsClosed (asyncChainQueue s))"

subsection \<open>Frames\<close>

lemma startTask_frame [simp]:
  "asyncChainQueue (startTask s) = asyncChainQueue s"
  "runningTotal (startTask s) = runningTotal s"
  "resetCounter (startTask s) = resetCounter s"
  "finalMessageVisible (startTask s) = finalMessageVisible s"
  "waitingToFinish (startTask s) = waitingToFinish s"
  "haltCallbacks (startTask s) = haltCallbacks s"
  "elapsedTime (startTask s) = elapsedTime s"
  by (simp_all add: startTask_def split: phase.splits)

lemma flushChain_frame [simp]:
  "runningTotal (flushChain n s) = runningTotal s"
  "resetCounter (flushChain n s) = resetCounter s"
  "finalMessageVisible (flushChain n s) = finalMessageVisible s"
  "waitingToFinish (flushChain n s) = waitingToFinish s"
  "haltCallbacks (flushChain n s) = haltCallbacks s"
  "elapsedTime (flushChain n s) = elapsedTime s"
  by (induction n s rule: flushChain.induct; simp split: option.splits)+

lemma haltCallback_frame [simp]:
  "asyncChainQueue (haltCallback h s) = asyncChainQueue s"
  "runningTotal (haltCallback h s) = runningTotal s"
  "resetCounter (haltCallback h s) = resetCounter s"
  "timers (haltCallback h s) = timers s"
  "haltCallbacks (haltCallback h s) = haltCallbacks s"
  "elapsedTime (haltCallback h s) = elapsedTime s"
  by (cases h; simp)+

lemma runHaltCallbacks_frame [simp]:
  "asyncChainQueue (runHaltCallbacks cs s) = asyncChainQueue s"
  "runningTotal (runHaltCallbacks cs s) = runningTotal s"
  "resetCounter (runHaltCallbacks cs s) = resetCounter s"
  "timers (runHaltCallbacks cs s) = timers s"
  "elapsedTime (runHaltCallbacks cs s) = elapsedTime s"
  by (induction cs s rule: runHaltCallbacks.induct; simp)+

subsection \<open>The flush only advances the chain\<close>

lemma flushChain_reachable:
  "reachable (asyncChainQueue s) \<Longrightarrow> reachable (asyncChainQueue (flushChain n s))"
proof (induction n s rule: flushChain.induct)
  case (2 n s)
  show ?case
  proof (cases "chainAdvances (asyncChainQueue s)")
    case None
    then show ?thesis using "2.prems" by simp
  next
    case (Some q)
    then have "reachable q"
      using reachable.step [OF "2.prems", of ChainAdvance] by simp
    with Some "2.IH" show ?thesis by simp
  qed
qed simp

lemma stageReached_progress:
  "headPhase (stageReached st q) \<noteq> Idle \<or>
   outputs (stageReached st q) = outputs q @ [last (outputs q)] \<or>
   outputs (stageReached st q) = outputs q @ [Rejected]"
  by (cases st; cases "current q") (auto simp: closureReached_outputs closureReached_phase current_def)

lemma chainAdvances_pending:
  assumes "chainAdvances q = Some q'"
  shows "pending_steps q' < pending_steps q"
proof -
  from chainAdvances_SomeD [OF assms] have idle: "headPhase q = Idle"
    and pos: "position q < length (pipeline q)" and q': "q' = stageReached (pipeline q ! position q) q"
    by auto
  have "length (outputs q) \<le> length (pipeline q)" using pos by (simp add: position_def)
  moreover have "pipeline q' = pipeline q" using stageReached_grows q' by blast
  ultimately show ?thesis
    using stageReached_progress [of "pipeline q ! position q" q] idle q'
    by (auto simp: pending_steps_def)
qed

lemma flushChain_quiescent_gen:
  "pending_steps (asyncChainQueue s) \<le> n \<Longrightarrow> chainAdvances (asyncChainQueue (flushChain n s)) = None"
proof (induction n s rule: flushChain.induct)
  case (1 s)
  then show ?case
    by (cases "chainAdvances (asyncChainQueue s)") (auto dest: chainAdvances_pending)
next
  case (2 n s)
  show ?case
  proof (cases "chainAdvances (asyncChainQueue s)")
    case (Some q)
    with chainAdvances_pending [OF Some] "2.prems" "2.IH" [OF Some] show ?thesis by simp
  qed simp
qed

lemma flushChain_quiescent:
  "chainAdvances (asyncChainQueue (flushChain (Suc (length (pipeline (asyncChainQueue s)))) s)) = None"
  by (rule flushChain_quiescent_gen) (simp add: pending_steps_def)

subsection \<open>The component's chain\<close>

lemma app_stages_fireDrainWaiters:
  "list_all app_stage (pipeline q) \<Longrightarrow> list_all app_stage (pipeline (fireDrainWaiters ws q))"
  by (induction ws arbitrary: q) (simp_all add: closeQueue_pipeline)

lemma app_stages_registerTaskCompletion:
  "list_all app_stage (pipeline q) \<Longrightarrow> list_all app_stage (pipeline (registerTaskCompletion q))"
  by (simp add: registerTaskCompletion_def Let_def app_stages_fireDrainWaiters)

lemma closed_registerTaskCompletion:
  "queueIsClosed q \<Longrightarrow> queueIsClosed (registerTaskCompletion q)"
  by (simp add: registerTaskCompletion_def Let_def fireDrainWaiters_closed)

lemma closed_getFinalResult:
  "queueIsClosed q \<Longrightarrow> queueIsClosed (fst (getFinalResultAndCloseWhenAllTasksComplete q))"
  by (simp add: getFinalResultAndCloseWhenAllTasksComplete_def Let_def)

text \<open>
  On the component's chain, reaching a step keeps the chain's value; when the step is a
  task, its input carries that value as \<open>runningTotal\<close>.
\<close>

lemma app_chainAdvances:
  assumes "list_all app_stage (pipeline q)" and "current q = Fulfilled x" and "chainAdvances q = Some q'"
  shows "pipeline q' = pipeline q \<and> current q' = Fulfilled x \<and> queueIsClosed q' = queueIsClosed q \<and>
    (\<forall>i. headPhase q' = AwaitingPromise i \<longrightarrow> runningTotal_input i = x)"
proof -
  from chainAdvances_SomeD [OF assms(3)] have pos: "position q < length (pipeline q)"
    and q': "q' = stageReached (pipeline q ! position q) q" and idle: "headPhase q = Idle" by auto
  have st: "app_stage (pipeline q ! position q)"
    using assms(1) pos by (simp add: list_all_length)
  show ?thesis
  proof (cases "pipeline q ! position q")
    case (PromiseTask a ci p)
    with st q' assms(2) show ?thesis by (simp add: createArgumentsForTask_def)
  next
    case (Closure n)
    with q' assms(2) idle show ?thesis
      by (simp add: closureReached_outputs closureReached_phase current_def)
  next
    case (FunctionTask a ci cb t)
    with st show ?thesis by simp
  qed
qed

subsection \<open>The invariant through the microtasks\<close>

lemma app_inv_frame [simp]:
  "app_inv (s\<lparr>haltCallbacks := cs\<rparr>) = app_inv s"
  "app_inv (s\<lparr>elapsedTime := t\<rparr>) = app_inv s"
  "app_inv (s\<lparr>waitingToFinish := b\<rparr>) = app_inv s"
  "app_inv (s\<lparr>isInInitialState := b\<rparr>) = app_inv s"
  "app_inv (s\<lparr>lastTotal := v\<rparr>) = app_inv s"
  "app_inv (s\<lparr>lastTimeCheck := c\<rparr>) = app_inv s"
  "app_inv (s\<lparr>formTaskValue := x\<rparr>) = app_inv s"
  "app_inv (s\<lparr>formTaskTime := x\<rparr>) = app_inv s"
  by (simp_all add: app_inv_def current_generation_def expected_timers_def)

lemma app_inv_advance:
  assumes "app_inv s" and "chainAdvances (asyncChainQueue s) = Some q"
  shows "app_inv (startTask (s\<lparr>asyncChainQueue := q\<rparr>))"
proof -
  have inv: "reachable (asyncChainQueue s)" "list_all app_stage (pipeline (asyncChainQueue s))"
    "current (asyncChainQueue s) = Fulfilled (runningTotal s)"
    "list_all (\<lambda>(g, v). g \<le> resetCounter s) (timers s)" "current_generation s = expected_timers s"
    "finalMessageVisible s \<longrightarrow> queueIsClosed (asyncChainQueue s)"
    using assms(1) by (simp_all add: app_inv_def)
  have idle: "headPhase (asyncChainQueue s) = Idle" using chainAdvances_SomeD [OF assms(2)] by simp
  then have none: "filter (\<lambda>(g, v). g = resetCounter s) (timers s) = []"
    using inv(5) by (simp add: current_generation_def expected_timers_def)
  have r: "reachable q" using reachable.step [OF inv(1), of ChainAdvance q] assms(2) by simp
  note adv = app_chainAdvances [OF inv(2,3) assms(2)]
  show ?thesis
  proof (cases "headPhase q")
    case (AwaitingPromise i)
    with adv r inv none show ?thesis
      by (simp add: app_inv_def startTask_def current_generation_def expected_timers_def)
  qed (use adv r inv none in \<open>simp_all add: app_inv_def startTask_def current_generation_def expected_timers_def\<close>)
qed

lemma flushChain_inv: "app_inv s \<Longrightarrow> app_inv (flushChain n s)"
proof (induction n s rule: flushChain.induct)
  case (2 n s)
  then show ?case by (auto split: option.splits intro: app_inv_advance)
qed simp

lemma runHaltCallbacks_inv: "app_inv s \<Longrightarrow> app_inv (runHaltCallbacks cs s)"
proof (induction cs s rule: runHaltCallbacks.induct)
  case (2 w h cs s)
  have "app_inv (haltCallback h s)"
    using "2.prems" by (cases h) (simp_all add: app_inv_def current_generation_def expected_timers_def IsClosed_def)
  with "2.IH" "2.prems" show ?case by simp
qed simp

lemma microtasks_inv:
  assumes "app_inv s"
  shows "app_inv (microtasks s)"
proof -
  let ?s1 = "flushChain (Suc (length (pipeline (asyncChainQueue s)))) s"
  have "app_inv (?s1\<lparr>haltCallbacks := []\<rparr>)"
    using flushChain_inv [OF assms] by (simp only: app_inv_frame)
  then show ?thesis unfolding microtasks_def Let_def by (rule runHaltCallbacks_inv)
qed

subsection \<open>The invariant through the macrotasks\<close>

lemma app_invD:
  assumes "app_inv s"
  shows "reachable (asyncChainQueue s)" "list_all app_stage (pipeline (asyncChainQueue s))"
    "current (asyncChainQueue s) = Fulfilled (runningTotal s)"
    "list_all (\<lambda>(g, v). g \<le> resetCounter s) (timers s)" "current_generation s = expected_timers s"
    "finalMessageVisible s \<longrightarrow> queueIsClosed (asyncChainQueue s)"
  using assms by (simp_all add: app_inv_def)

text \<open>
  The timer of the awaited task fires in its own generation: it is the only timer of
  the generation, the chain's promise settles with the total it publishes.
\<close>

lemma app_inv_timer_current:
  assumes "app_inv s" and "k < length (timers s)" and "timers s ! k = (resetCounter s, v)"
  shows "\<exists>q'. promiseSettles (asyncChainQueue s) = Some q' \<and> current q' = Fulfilled v \<and>
    app_inv (s\<lparr>timers := take k (timers s) @ drop (Suc k) (timers s), runningTotal := v,
                asyncChainQueue := q'\<rparr>)"
proof -
  let ?q = "asyncChainQueue s"
  note inv = app_invD [OF assms(1)]
  have "current_generation s \<noteq> []"
    using assms(2,3) nth_mem [OF assms(2)] by (force simp: current_generation_def filter_empty_conv)
  then obtain i where ph: "headPhase ?q = AwaitingPromise i"
    and gen: "current_generation s = [(resetCounter s, newRunningTotal i)]"
    using inv(5) by (cases "headPhase ?q") (auto simp: expected_timers_def)
  from filter_remove_nth_single [OF gen [unfolded current_generation_def] assms(2)] assms(3)
  have v: "v = newRunningTotal i"
    and rest: "filter (\<lambda>(g, v). g = resetCounter s) (take k (timers s) @ drop (Suc k) (timers s)) = []"
    by auto
  have hd: "head_ok ?q" and sh: "shape_ok ?q" using reachable_inv_parts [OF inv(1)] by simp_all
  obtain a ci p x where st: "pipeline ?q ! position ?q = PromiseTask a ci p"
    and cur: "current ?q = Fulfilled x" and i: "i = ci x a"
    using hd ph by (cases "pipeline ?q ! position ?q"; cases "current ?q") (auto simp: head_ok_def)
  have "position ?q < length (pipeline ?q)" using shape_ok_position(3) [OF sh] ph by simp
  with st inv(2) have "ci = createArgumentsForTask \<and> p = promiseToPushToQueue"
    by (metis app_stage.simps(1) list_all_length)
  with i cur inv(3) v have ci: "i = createArgumentsForTask (runningTotal s) a" and pv: "p i = Some (Fulfilled v)"
    by (auto simp: promiseToPushToQueue_def createArgumentsForTask_def)
  let ?q' = "registerTaskCompletion (completeStage (Fulfilled v) ?q)"
  have ps: "promiseSettles ?q = Some ?q'" using ph st pv by (simp add: promiseSettles_def)
  have r: "reachable ?q'" using reachable.step [OF inv(1), of PromiseSettle ?q'] ps by simp
  have "app_inv (s\<lparr>timers := take k (timers s) @ drop (Suc k) (timers s), runningTotal := v,
                asyncChainQueue := ?q'\<rparr>)"
  proof -
    have b: "list_all (\<lambda>(g, v). g \<le> resetCounter s) (take k (timers s) @ drop (Suc k) (timers s))"
      using inv(4) by (rule list_all_remove_nth)
    have c: "finalMessageVisible s \<longrightarrow> queueIsClosed ?q'"
      using inv(6) by (simp add: closed_registerTaskCompletion completeStage_def)
    show ?thesis
      using r inv(2) rest b c
      by (simp add: app_inv_def current_generation_def expected_timers_def current_def
          app_stages_registerTaskCompletion del: list_all_append filter_append)
  qed
  with ps show ?thesis by (simp add: current_def)
qed

lemma app_inv_timerCallback:
  assumes "app_inv s" and "timerCallback k s = Some s'"
  shows "app_inv s'"
proof -
  from assms(2) have k: "k < length (timers s)" by (simp add: timerCallback_def split: if_splits)
  obtain g v where t: "timers s ! k = (g, v)" by fastforce
  show ?thesis
  proof (cases "g = resetCounter s")
    case True
    with app_inv_timer_current [OF assms(1) k] t assms(2) k show ?thesis
      by (auto simp: timerCallback_def Let_def)
  next
    case False
    with assms k t have s': "s' = s\<lparr>timers := take k (timers s) @ drop (Suc k) (timers s)\<rparr>"
      by (simp add: timerCallback_def Let_def)
    have b: "list_all (\<lambda>(g, v). g \<le> resetCounter s) (take k (timers s) @ drop (Suc k) (timers s))"
      using app_invD(4) [OF assms(1)] by (rule list_all_remove_nth)
    have "filter (\<lambda>(g, v). g = resetCounter s) (take k (timers s) @ drop (Suc k) (timers s)) =
        filter (\<lambda>(g, v). g = resetCounter s) (timers s)"
      using k t False by (intro filter_remove_nth_other) simp_all
    then have g: "current_generation s' = current_generation s"
      by (simp add: current_generation_def s' del: filter_append)
    show ?thesis
      using assms(1) b g by (simp add: app_inv_def s' expected_timers_def del: list_all_append)
  qed
qed

lemma app_inv_reset: "app_inv s \<Longrightarrow> app_inv (reset s)"
  by (auto simp: app_inv_def reset_def current_generation_def expected_timers_def
      list_all_iff filter_empty_conv new_queue_def current_def intro: reachable.init
      [of 0 False, simplified new_queue_def, simplified])

lemma app_inv_onSubmit: "app_inv s \<Longrightarrow> app_inv (onSubmit s)"
  using reachable.step [of "asyncChainQueue s"
      "PushPromise \<lparr>taskValue = formTaskValue s, taskTimeInSeconds = formTaskTime s\<rparr>
         createArgumentsForTask promiseToPushToQueue"]
  by (simp add: app_inv_def onSubmit_def current_generation_def expected_timers_def current_def)
    (simp add: pushPromiseToQueue_def)

lemma app_inv_halt_closeThenFinish: "app_inv s \<Longrightarrow> app_inv (halt_closeThenFinish s)"
  using reachable.step [of "asyncChainQueue s" CloseAndGetResult]
  by (simp add: app_inv_def halt_closeThenFinish_def split_beta current_generation_def
      expected_timers_def current_def closeQueue_pipeline)

lemma app_inv_halt_finishThenClose: "app_inv s \<Longrightarrow> app_inv (halt_finishThenClose s)"
  using reachable.step [of "asyncChainQueue s" DrainThenClose]
  by (simp add: app_inv_def halt_finishThenClose_def split_beta current_generation_def
      expected_timers_def current_def closeQueue_pipeline closed_getFinalResult)

lemma app_inv_openQueue_button: "app_inv s \<Longrightarrow> app_inv (openQueue_button s)"
  using reachable.step [of "asyncChainQueue s" Open]
  by (simp add: app_inv_def openQueue_button_def current_generation_def expected_timers_def
      current_def openQueue_outputs openQueue_phase split: phase.splits)

lemma app_inv_macrotask: "app_inv s \<Longrightarrow> macrotask e s = Some s' \<Longrightarrow> app_inv s'"
  by (cases e)
    (auto simp: timingTick_def app_inv_reset app_inv_onSubmit app_inv_halt_closeThenFinish
      app_inv_halt_finishThenClose app_inv_openQueue_button intro: app_inv_timerCallback)

lemma app_inv_new_component: "app_inv new_component"
  using reachable.init [of 0 False]
  by (simp add: app_inv_def new_component_def current_generation_def expected_timers_def)
    (simp add: new_queue_def current_def)

lemma app_reachable_inv: "app_reachable s \<Longrightarrow> app_inv s"
proof (induction rule: app_reachable.induct)
  case init
  then show ?case by (rule app_inv_new_component)
next
  case (step s e s')
  then show ?case
    by (auto simp: app_step_def intro: microtasks_inv app_inv_macrotask)
qed

subsection \<open>After the microtasks no step of the chain is left to reach\<close>

lemma microtasks_queue:
  "asyncChainQueue (microtasks s) = asyncChainQueue (flushChain (Suc (length (pipeline (asyncChainQueue s)))) s)"
  by (simp add: microtasks_def Let_def)

lemma microtasks_quiescent: "chainAdvances (asyncChainQueue (microtasks s)) = None"
  by (simp only: microtasks_queue flushChain_quiescent)

lemma app_reachable_quiescent: "app_reachable s \<Longrightarrow> chainAdvances (asyncChainQueue s) = None"
proof (induction rule: app_reachable.induct)
  case init
  then show ?case by (simp add: new_component_def new_queue_def chainAdvances_def position_def)
next
  case (step s e s')
  then show ?case by (auto simp: app_step_def microtasks_quiescent)
qed

text \<open>On a chain with no step to reach, the microtasks leave the queue and the total alone.\<close>

lemma microtasks_idle:
  assumes "chainAdvances (asyncChainQueue s) = None"
  shows "asyncChainQueue (microtasks s) = asyncChainQueue s \<and> runningTotal (microtasks s) = runningTotal s"
  using assms by (simp add: microtasks_def Let_def)

subsection \<open>Runs of the component\<close>

lemma app_reachable_run: "app_reachable s \<Longrightarrow> app_run es s = Some s' \<Longrightarrow> app_reachable s'"
proof (induction es arbitrary: s)
  case (Cons e es)
  then show ?case by (auto split: option.splits intro: app_reachable.step)
qed simp

lemma app_reachable_the_run:
  "app_run es new_component \<noteq> None \<Longrightarrow> app_reachable (the (app_run es new_component))"
  by (auto intro: app_reachable_run [OF app_reachable.init])

end
