(* ===== verification/App_Facts.thy ===== *)
theory App_Facts
  imports App_Inv
begin

text \<open>
  Further facts about the component: the clock only holds whole tenths of a second,
  so \<open>parseFloat\<close> reads it back exactly; the waiting status is set only while a
  drain callback is attached.
\<close>

subsection \<open>Definitions\<close>

definition waiting_ok :: "AppComponent \<Rightarrow> bool" where
  "waiting_ok s \<longleftrightarrow> (waitingToFinish s \<longrightarrow> (\<exists>w. (w, FinishThenClose) \<in> set (haltCallbacks s)))"

subsection \<open>The clock\<close>

lemma microtasks_elapsed [simp]: "elapsedTime (microtasks s) = elapsedTime s"
  by (simp add: microtasks_def Let_def del: flushChain.simps)

lemma macrotask_elapsed:
  "macrotask e s = Some s' \<Longrightarrow>
   elapsedTime s' = elapsedTime s \<or> elapsedTime s' = elapsedTime s + tickPeriod \<or> elapsedTime s' = 0"
  by (cases e) (auto simp: timingTick_def reset_def onSubmit_def halt_closeThenFinish_def
      halt_finishThenClose_def openQueue_button_def timerCallback_def Let_def split_beta
      split: if_splits prod.splits)

lemma app_reachable_elapsed: "app_reachable s \<Longrightarrow> elapsedTime s mod 100 = 0"
proof (induction rule: app_reachable.induct)
  case init
  then show ?case by (simp add: new_component_def)
next
  case (step s e s')
  then obtain s1 where m: "macrotask e s = Some s1" and s': "s' = microtasks s1"
    by (auto simp: app_step_def)
  from macrotask_elapsed [OF m] step.IH s' show ?case by (auto simp: tickPeriod_def)
qed

text \<open>The time \<open>parseFloat\<close> reads back from the clock, in seconds.\<close>

lemma parseFloat_Clock:
  "elapsedTime s mod 100 = 0 \<Longrightarrow> parseFloat (Clock s) = Some (of_nat (elapsedTime s) / 1000)"
proof -
  assume "elapsedTime s mod 100 = 0"
  then obtain k where e: "elapsedTime s = 100 * k" by blast
  then have "(of_nat (elapsedTime s div 100) :: rat) / 10 = of_nat (elapsedTime s) / 1000" by simp
  then show ?thesis by (simp add: Clock_def parseFloat_toFixed1)
qed

subsection \<open>The waiting status\<close>

lemma runHaltCallbacks_waiting:
  "(waitingToFinish s \<longrightarrow> (\<exists>w. (w, FinishThenClose) \<in> set (haltCallbacks s) \<union> set cs)) \<Longrightarrow>
   waiting_ok (runHaltCallbacks cs s)"
proof (induction cs s rule: runHaltCallbacks.induct)
  case (1 s)
  then show ?case by (simp add: waiting_ok_def)
next
  case (2 w h cs s)
  show ?case
  proof (cases "is_resolved (future_result (asyncChainQueue s) w)")
    case True
    with "2.prems" "2.IH"(1) show ?thesis by (cases h) auto
  next
    case False
    with "2.prems" "2.IH"(2) show ?thesis by auto
  qed
qed

lemma microtasks_waiting: "waiting_ok s \<Longrightarrow> waiting_ok (microtasks s)"
  unfolding microtasks_def Let_def
  by (rule runHaltCallbacks_waiting) (simp add: waiting_ok_def del: flushChain.simps)

lemma macrotask_waiting: "waiting_ok s \<Longrightarrow> macrotask e s = Some s' \<Longrightarrow> waiting_ok s'"
  by (cases e) (auto simp: waiting_ok_def timingTick_def reset_def onSubmit_def halt_closeThenFinish_def
      halt_finishThenClose_def openQueue_button_def timerCallback_def Let_def split_beta
      split: if_splits prod.splits)

lemma app_reachable_waiting: "app_reachable s \<Longrightarrow> waiting_ok s"
proof (induction rule: app_reachable.induct)
  case init
  then show ?case by (simp add: waiting_ok_def new_component_def)
next
  case (step s e s')
  then show ?case by (auto simp: app_step_def intro: microtasks_waiting macrotask_waiting)
qed

end
