(* ===== verification/Liveness.thy ===== *)
theory Liveness
  imports Run_Facts
begin

text \<open>
  Liveness of the chain. \<open>progress\<close> is a scheduler of the asynchronous side: it takes
  whichever of the chain's own steps is enabled (the head's \<open>then\<close> callback, the
  timer of a synchronous task, the settling of an asynchronous task); \<open>drive\<close>
  repeats it with fuel. When every barrier of the chain is covered by the openings
  and every asynchronous task fulfils, each step settles within two scheduler steps,
  so fuel twice the chain's length settles every step present at the start.
\<close>

subsection \<open>Definitions\<close>

definition progress :: "('v, 'i, 'r) queue \<Rightarrow> ('v, 'i, 'r) queue option" where
  "progress q =
     (case chainAdvances q of
        Some q' \<Rightarrow> Some q'
      | None \<Rightarrow> (case timerFires q of Some q' \<Rightarrow> Some q' | None \<Rightarrow> promiseSettles q))"

fun drive :: "nat \<Rightarrow> ('v, 'i, 'r) queue \<Rightarrow> ('v, 'i, 'r) queue" where
  "drive 0 q = q"
| "drive (Suc n) q = (case progress q of None \<Rightarrow> q | Some q' \<Rightarrow> drive n q')"

text \<open>Scheduler steps left until the first \<open>L\<close> steps of the chain have settled.\<close>

definition remaining :: "nat \<Rightarrow> ('v, 'i, 'r) queue \<Rightarrow> nat" where
  "remaining L q = 2 * (L - position q) - (if headPhase q = Idle then 0 else 1)"

text \<open>
  The condition under which the step at index \<open>k\<close> of the chain can settle: a barrier
  covered by \<open>opn\<close> openings, an asynchronous task whose promise fulfils on every
  input, or a synchronous task.
\<close>

fun can_settle :: "nat \<Rightarrow> ('v, 'i, 'r) stage \<Rightarrow> bool" where
  "can_settle opn (Closure n) \<longleftrightarrow> n \<le> opn"
| "can_settle opn (PromiseTask a ci p) \<longleftrightarrow> (\<forall>i. \<exists>v. p i = Some (Fulfilled v))"
| "can_settle opn (FunctionTask a ci cb t) \<longleftrightarrow> True"

subsection \<open>A scheduler step is a step of the queue\<close>

lemma progress_event: "progress q = Some q' \<Longrightarrow> \<exists>e. exec_event e q = Some q'"
proof -
  assume p: "progress q = Some q'"
  show ?thesis
  proof (cases "chainAdvances q")
    case (Some q1)
    with p have "exec_event ChainAdvance q = Some q'" by (simp add: progress_def)
    then show ?thesis ..
  next
    case None
    show ?thesis
    proof (cases "timerFires q")
      case (Some q1)
      with p None have "exec_event TimerFire q = Some q'" by (simp add: progress_def)
      then show ?thesis ..
    next
      case None
      with p \<open>chainAdvances q = None\<close> have "exec_event PromiseSettle q = Some q'"
        by (simp add: progress_def)
      then show ?thesis ..
    qed
  qed
qed

lemma drive_reachable: "reachable q \<Longrightarrow> reachable (drive n q)"
proof (induction n q rule: drive.induct)
  case (2 n q)
  show ?case
  proof (cases "progress q")
    case (Some q')
    with progress_event obtain e where "exec_event e q = Some q'" by blast
    with "2.prems" have "reachable q'" by (rule reachable.step)
    with Some "2.IH" show ?thesis by simp
  qed (use "2.prems" in simp)
qed simp

lemma drive_grows: "\<exists>zs ys. pipeline (drive n q) = pipeline q @ zs \<and> outputs (drive n q) = outputs q @ ys"
proof (induction n q rule: drive.induct)
  case (2 n q)
  show ?case
  proof (cases "progress q")
    case (Some q')
    with progress_event obtain e where e: "exec_event e q = Some q'" by blast
    from exec_event_grows [OF e] "2.IH" [OF Some] Some show ?thesis by force
  qed simp
qed simp

subsection \<open>One step of the chain settles within two scheduler steps\<close>

lemma progress_settles:
  assumes "reachable q" and "is_fulfilled (current q)" and "position q < L" and "L \<le> length (pipeline q)"
    and "can_settle (numberOfOpenings q) (pipeline q ! position q)"
  shows "\<exists>q'. progress q = Some q' \<and> remaining L q' < remaining L q \<and> is_fulfilled (current q') \<and>
    numberOfOpenings q' = numberOfOpenings q \<and> (\<exists>zs. pipeline q' = pipeline q @ zs)"
proof -
  have hd: "head_ok q" using reachable_inv_parts(2) [OF assms(1)] .
  obtain x where x: "current q = Fulfilled x" using assms(2) by (cases "current q") auto
  have pos: "position q < length (pipeline q)" using assms(3,4) by simp
  have ne: "0 < length (outputs q)"
    using reachable_inv_parts(1) [OF assms(1)] by (simp add: shape_ok_def)
  show ?thesis
  proof (cases "headPhase q")
    case Idle
    then have ca: "progress q = Some (stageReached (pipeline q ! position q) q)"
      using pos by (simp add: progress_def chainAdvances_def)
    show ?thesis
    proof (cases "pipeline q ! position q")
      case (Closure n)
      with ca x Idle assms(3,5) ne show ?thesis
        by (cases "outputs q")
          (simp_all add: remaining_def closureReached_outputs closureReached_phase current_def position_def)
    qed (use ca x Idle assms(3) in \<open>simp_all add: remaining_def\<close>)
  next
    case TimerPending
    with hd x obtain a ci cb t where st: "pipeline q ! position q = FunctionTask a ci cb t"
      by (cases "pipeline q ! position q") (auto simp: head_ok_def)
    let ?q' = "registerTaskCompletion (completeStage (Fulfilled (cb (ci x a))) q)"
    have "progress q = Some ?q'"
      using TimerPending st x by (simp add: progress_def chainAdvances_def timerFires_def)
    with TimerPending assms(3) ne registerTaskCompletion_pipeline [of "completeStage (Fulfilled (cb (ci x a))) q"]
    show ?thesis by (cases "outputs q") (simp_all add: remaining_def current_def position_def)
  next
    case (AwaitingPromise i)
    with hd x obtain a ci p where st: "pipeline q ! position q = PromiseTask a ci p"
      by (cases "pipeline q ! position q") (auto simp: head_ok_def)
    with assms(5) obtain v where pv: "p i = Some (Fulfilled v)" by auto
    let ?q' = "registerTaskCompletion (completeStage (Fulfilled v) q)"
    have "progress q = Some ?q'"
      using AwaitingPromise st pv by (simp add: progress_def chainAdvances_def timerFires_def promiseSettles_def)
    with AwaitingPromise assms(3) ne registerTaskCompletion_pipeline [of "completeStage (Fulfilled v) q"]
    show ?thesis by (cases "outputs q") (simp_all add: remaining_def current_def position_def)
  next
    case WaitingForOpen
    with hd x assms(5) show ?thesis
      by (cases "pipeline q ! position q") (auto simp: head_ok_def)
  next
    case Stalled
    with hd x show ?thesis
      by (cases "pipeline q ! position q") (auto simp: head_ok_def)
  qed
qed

subsection \<open>Enough fuel settles the chain\<close>

lemma drive_settles:
  "reachable q \<Longrightarrow> is_fulfilled (current q) \<Longrightarrow> L \<le> length (pipeline q) \<Longrightarrow>
   (\<forall>k < L. can_settle (numberOfOpenings q) (pipeline q ! k)) \<Longrightarrow> remaining L q \<le> n \<Longrightarrow>
   L \<le> position (drive n q)"
proof (induction n q rule: drive.induct)
  case (1 q)
  then show ?case by (cases "headPhase q = Idle") (simp_all add: remaining_def)
next
  case (2 n q)
  show ?case
  proof (cases "position q < L")
    case True
    with "2.prems" obtain q' where p: "progress q = Some q'" and rem: "remaining L q' < remaining L q"
      and f: "is_fulfilled (current q')" and o: "numberOfOpenings q' = numberOfOpenings q"
      and zs: "\<exists>zs. pipeline q' = pipeline q @ zs"
      using progress_settles [of q L] by blast
    from progress_event [OF p] obtain e where "exec_event e q = Some q'" by blast
    with "2.prems"(1) have r: "reachable q'" by (rule reachable.step)
    from zs "2.prems"(3) have len: "L \<le> length (pipeline q')" by auto
    from zs "2.prems"(3,4) o have cs: "\<forall>k < L. can_settle (numberOfOpenings q') (pipeline q' ! k)"
      by (auto simp: nth_append)
    from "2.IH" [OF p r f len cs] rem "2.prems"(5) p show ?thesis by simp
  next
    case False
    obtain ys where "outputs (drive (Suc n) q) = outputs q @ ys" using drive_grows by blast
    with False show ?thesis by (simp add: position_def)
  qed
qed

end
