(* ===== verification/Spec2Isabelle.thy ===== *)
theory Spec2Isabelle
  imports App_Facts Liveness
begin

text \<open>
  \<^bold>\<open>A verification library for tearlant/async-chain-demo.\<close>

  \<^bold>\<open>The program.\<close> The repository is an Angular demo around one primitive,
  \<open>AsyncChainQueue\<close> (src/src/app/queue/asyncChainQueue.ts): a FIFO chain of tasks
  kept as one JavaScript promise, \<open>pipeline\<close>, that every submission replaces by a
  promise chained onto the old one. Two submission methods append a task
  (\<open>pushFunctionToQueue\<close>: a synchronous callback run after a \<open>setTimeout\<close>;
  \<open>pushPromiseToQueue\<close>: an asynchronous task). A gate (\<open>closeQueue\<close>,
  \<open>openQueue\<close>) inserts barriers into the chain and releases them, with the counters
  \<open>numberOfClosures\<close>/\<open>numberOfOpenings\<close> and the RxJS subject \<open>openQueueSignal\<close>.
  A completion tracker (\<open>registerTaskCompletion\<close>, the subjects \<open>taskComplete\<close> and
  \<open>queueComplete\<close>) counts finished tasks, and two halting methods
  (\<open>closeQueueAndGetFinalResult\<close>, \<open>getFinalResultAndCloseWhenAllTasksComplete\<close>)
  hand a promise of the final value to the caller and close the queue. The
  component src/src/app/app.component.ts is the UI that drives the queue (a form,
  a clock, status strings); app.module.ts is Angular wiring.

  \<^bold>\<open>The model.\<close> The promise chain is unrolled into data (theory \<open>Queue_Types\<close>):
  the record \<open>AsyncChainQueue\<close> has the class's fields, with \<open>pipeline\<close> the list of
  the steps appended to the promise (datatype \<open>stage\<close>: \<open>FunctionTask\<close>,
  \<open>PromiseTask\<close>, \<open>Closure n\<close>), \<open>outputs\<close> the values the chain has settled to
  (datatype \<open>settled\<close>: fulfilled or rejected), \<open>headPhase\<close> the progress of the
  step at the head, \<open>openSubscribers\<close>/\<open>drainWaiters\<close> the subscribers of the two
  subjects, and \<open>futures\<close> the promises handed out (datatype \<open>future\<close>). Each
  method is one definition, with its guards and every state change:
  \<^item> \<open>Gate\<close>: \<open>closeQueue\<close>, \<open>openQueue\<close>, \<open>openQueueSignal\<close> (the emission) and
    \<open>closureReached\<close> (the barrier's \<open>then\<close> callback, lines 100-106);
  \<^item> \<open>Completion\<close>: \<open>registerTaskCompletion\<close>, \<open>fireDrainWaiters\<close> (the \<open>take(1)\<close>
    subscribers of \<open>queueComplete\<close>), \<open>closeQueueAndGetFinalResult\<close>,
    \<open>getFinalResultAndCloseWhenAllTasksComplete\<close>, and \<open>future_result\<close>, what a
    caller holding a returned promise observes;
  \<^item> \<open>Chain\<close>: the constructor \<open>new_queue\<close>, \<open>pushFunctionToQueue\<close>,
    \<open>pushPromiseToQueue\<close>, and the asynchronous progress of the chain:
    \<open>chainAdvances\<close> (the head's \<open>then\<close> callback runs), \<open>timerFires\<close> (the
    \<open>setTimeout\<close> of a synchronous task), \<open>promiseSettles\<close> (an asynchronous task's
    promise settles), each \<open>None\<close> when not enabled.
  \<open>Semantics\<close> makes the queue an event system: a datatype \<open>event\<close> of the public
  calls and the three kinds of progress, the step function \<open>exec_event\<close>, runs
  (\<open>run\<close>) and the inductive set of \<open>reachable\<close> states. Any interleaving of calls
  and progress is allowed; JavaScript runs fewer schedules (microtasks before the
  next caller's event), so what holds for all runs holds for the program.
  \<open>Chain_Spec\<close> is the abstract specification: \<open>stage_result\<close> and
  \<open>chain_eval\<close>, the sequential composition the chain promises.

  \<open>App\<close> models the component as a client of the queue: the record
  \<open>AppComponent\<close> with the class's fields, one definition per handler
  (\<open>new_component\<close>, \<open>timingTick\<close>, \<open>reset\<close>, \<open>onSubmit\<close>,
  \<open>halt_closeThenFinish\<close>, \<open>halt_finishThenClose\<close>, \<open>openQueue_button\<close>), the task
  it submits (\<open>createArgumentsForTask\<close>, \<open>promiseToPushToQueue\<close>; \<open>startTask\<close> is
  the call that captures \<open>signalValue\<close> and starts the timer, \<open>timerCallback\<close> the
  timer with its \<open>resetCounter\<close> check), and the \<open>then\<close> callbacks of the halting
  handlers (\<open>haltCallback\<close>). Each handler or timer is a macrotask (\<open>macrotask\<close>)
  followed by the microtasks JavaScript runs before the next one (\<open>microtasks\<close>: the
  chain advances as far as it can, \<open>flushChain\<close>, then the callbacks whose promise
  fulfilled run, \<open>runHaltCallbacks\<close>); \<open>app_step\<close>, \<open>app_run\<close> and
  \<open>app_reachable\<close> are the component's runs. Here the schedule is the one of the
  program: microtasks always run to completion before the next event. The form's two
  controls are fields of the state, edited by the user (\<open>EditTaskValue\<close>,
  \<open>EditTaskTime\<close>, \<open>None\<close> for an empty field), with their validators
  (\<open>formValid\<close>); \<open>onSubmit\<close> reads them as they are.
  The getters are definitions too (\<open>Clock\<close>, \<open>RunningTotal\<close>, \<open>QueueIsClosed\<close>,
  \<open>WaitingToFinish\<close>, \<open>ShowFinalMessage\<close>, \<open>FinalMessage\<close>,
  \<open>OpenOrClosedStatus\<close>), with the JavaScript number formatting they use in
  \<open>JS_Text\<close>: \<open>toString\<close> of integers (\<open>string_of_int\<close>), \<open>toFixed(1)\<close>
  (\<open>toFixed1\<close>), \<open>toString\<close> of a number of tenths (\<open>js_number_string\<close>) and
  \<open>parseFloat\<close>, the last returning \<open>None\<close> for \<open>NaN\<close>.
  \<open>Liveness\<close> adds a scheduler of the chain's own steps (\<open>progress\<close>, \<open>drive\<close>)
  to state that the chain does not get stuck by itself.

  \<^bold>\<open>What is proved.\<close> \<open>Invariant\<close> and \<open>Chain_Inv\<close> prove an eight-part invariant
  (plus \<open>waiters_ok\<close>) preserved by every event, hence true in every reachable
  state (\<open>reachable_queue_inv\<close>); \<open>Run_Facts\<close> derives what runs keep (the chain
  only grows, only \<open>openQueue\<close> counts openings, a rejected chain at a step without
  a rejection handler settles nothing more, a returned promise other than a pending
  drain request keeps its target). \<open>App_Inv\<close> proves that the component only
  applies the queue's operations, that the flush's fuel suffices, and the component
  invariant \<open>app_inv\<close> (the chain holds only the component's tasks and barriers, its
  value is the total on display, the timers of the current generation are exactly
  the awaited task's, the final message shows only while closed) in every reachable
  state (\<open>app_reachable_inv\<close>); \<open>App_Facts\<close> adds the invariants of the clock and
  of the waiting status. The properties below are the contract, claims C1 to C25:
  the chain refines its sequential specification (FIFO) and each task sees the
  previous output (C1, C2); barriers pass only when their closure number is covered
  by the openings, the counters keep their bounds, and an opening releases the
  waiting barrier (C3 to C6); completion counts and drain requests are sound (C7,
  C8); \<open>closeQueue\<close> is idempotent and a close after a banked opening passes (C9,
  C10, in theory \<open>Gate\<close>); a queue built closed runs nothing before \<open>openQueue\<close>
  (C13); the promise \<open>closeQueueAndGetFinalResult\<close> returns settles, if at all, to
  the sequential value of exactly the steps submitted before the call (C14); the
  component's total is the chain's value, stale timers are ignored and the final
  message shows only while closed (C19 to C21); the chain settles every step when
  the gate and the tasks allow it (C22); the halting callbacks record the exact time
  through \<open>parseFloat\<close> of the clock's text (C23); barriers are numbered in order
  (C24); the waiting status needs an attached drain callback (C25). Findings are
  theorems too: \<open>openQueue\<close>'s guard \<open>numberOfOpenings <= numberOfClosures\<close> lets a
  second reopen bank an opening (C11), so a queue closed afterwards reports
  \<open>IsClosed\<close> while none of its barriers can hold the chain (C12); a rejection stalls
  the chain at the next synchronous task or barrier forever (C15) and a rejected
  task blocks draining (C16); barriers never unsubscribe from \<open>openQueueSignal\<close>
  (C17); of two pending drain requests the second lands behind the barrier the first
  inserts and needs a further reopen (C18). Two further findings of the model have
  no claim: the component announces "All tasks processed" while a task submitted
  after \<open>halt_closeThenFinish\<close> is still queued, and \<open>onSubmit\<close> does not consult
  the form's validators (\<open>formValid\<close>), adding an empty field as 0.

  \<^bold>\<open>Choices.\<close> JavaScript numbers are modelled as \<open>nat\<close> and \<open>int\<close>: the counters
  grow by one per call and stay far below \<open>2^53\<close>, and the component's totals are
  sums of form values. Timing is abstracted: a timer or an asynchronous task
  completes at whatever point of the run the environment chooses; an asynchronous
  task is a function from its input to \<open>Some\<close> outcome or \<open>None\<close> (never settles).
  Exceptions thrown synchronously by \<open>createInputToTask\<close> or the callback are not
  modelled (both are total functions here). The flush of the chain after a
  macrotask gets one unit of fuel more than the chain is long: each step reached
  either suspends the head or appends one settled value, so that is enough
  (\<open>flushChain_quiescent\<close>). \<open>reset\<close> drops the callbacks attached to the discarded
  queue: that queue's chain can no longer move, as its timers fail the generation
  check (C20).

  \<^bold>\<open>Not modelled.\<close> Fractional form values (the controls hold integers or
  \<open>null\<close>). Exceptions thrown by \<open>createInputToTask\<close> or a callback. Floating-point
  rounding: numbers are exact rationals (the component's clock values are whole
  tenths, printed the same way). The HTML template is not in the repository, so
  which buttons it disables is unknown: every handler may run at any time.
  Angular change detection and the module wiring (app.module.ts), which is framework
  configuration with no behaviour. The interleaving semantics of the queue is
  liberal (C22 gives progress under a scheduler, not under every schedule).
\<close>

section \<open>Concrete tasks used by the witnesses\<close>

definition plus_task :: "int \<Rightarrow> (int, int, unit) event" where
  "plus_task n = PushPromise () (\<lambda>x _. x) (\<lambda>i. Some (Fulfilled (i + n)))"

definition failing_task :: "(int, int, unit) event" where
  "failing_task = PushPromise () (\<lambda>x _. x) (\<lambda>i. Some Rejected)"

definition add_task :: "int \<Rightarrow> (int, int, unit) event" where
  "add_task n = PushFunction () (\<lambda>x _. x) (\<lambda>i. i + n) 0"

definition demo_state :: "(int, int, unit) event list \<Rightarrow> bool \<Rightarrow> (int, int, unit) queue" where
  "demo_state es c = the (run es (new_queue 0 c))"

definition demo_app :: "app_event list \<Rightarrow> AppComponent" where
  "demo_app es = the (app_run es new_component)"

section \<open>The chain\<close>

text \<open>
  C1 (refinement). In every reachable state the values the chain has settled to are
  a prefix of the abstract sequential composition of its steps: each step ran on the
  value of the step before it, in submission order (FIFO).
\<close>

theorem chain_refines_spec:
  assumes "reachable q"
  shows "outputs q = take (length (outputs q)) (Chain_Spec.chain_trace (hd (outputs q)) (pipeline q))"
proof -
  have "fifo_ok q" and "shape_ok q" using reachable_inv_parts [OF assms] by simp_all
  then show ?thesis by (intro chained_prefix) (simp_all add: fifo_ok_def shape_ok_def)
qed

theorem chain_refines_spec_witness:
  "reachable (demo_state [plus_task 5, plus_task 5, ChainAdvance, PromiseSettle, ChainAdvance, PromiseSettle] False) \<and>
   outputs (demo_state [plus_task 5, plus_task 5, ChainAdvance, PromiseSettle, ChainAdvance, PromiseSettle] False)
     = [Fulfilled 0, Fulfilled 5, Fulfilled 10] \<and>
   chain_trace (Fulfilled 0)
     (pipeline (demo_state [plus_task 5, plus_task 5, ChainAdvance, PromiseSettle, ChainAdvance, PromiseSettle] False))
     = [Fulfilled 0, Fulfilled 5, Fulfilled 10]"
proof -
  have r: "reachable (demo_state [plus_task 5, plus_task 5, ChainAdvance, PromiseSettle, ChainAdvance, PromiseSettle] False)"
    unfolding demo_state_def by (rule reachable_the_run) (simp add: plus_task_def queue_defs)
  show ?thesis
    using r chain_refines_spec [OF r] by (simp add: demo_state_def plus_task_def queue_defs chain_trace_def)
qed

text \<open>
  C2 (safety). When an asynchronous task starts, its input is \<open>createInputToTask\<close>
  applied to the value the chain holds, that is, to the output of the step before
  it: task N+1 never sees a value other than task N's result.
\<close>

theorem task_input_is_previous_output:
  assumes "reachable q" and "headPhase q = AwaitingPromise i"
  shows "\<exists>a ci p x. pipeline q ! position q = PromiseTask a ci p \<and> current q = Fulfilled x \<and> i = ci x a"
proof -
  have "head_ok q" using reachable_inv_parts [OF assms(1)] by simp
  with assms(2) show ?thesis
    by (cases "pipeline q ! position q"; cases "current q") (auto simp: head_ok_def)
qed

theorem task_input_is_previous_output_witness:
  "reachable (demo_state [plus_task 5, ChainAdvance, PromiseSettle, plus_task 1, ChainAdvance] False) \<and>
   headPhase (demo_state [plus_task 5, ChainAdvance, PromiseSettle, plus_task 1, ChainAdvance] False) = AwaitingPromise 5"
proof -
  have r: "reachable (demo_state [plus_task 5, ChainAdvance, PromiseSettle, plus_task 1, ChainAdvance] False)"
    unfolding demo_state_def by (rule reachable_the_run) (simp add: plus_task_def queue_defs)
  have h: "headPhase (demo_state [plus_task 5, ChainAdvance, PromiseSettle, plus_task 1, ChainAdvance] False) = AwaitingPromise 5"
    by (simp add: demo_state_def plus_task_def queue_defs)
  from task_input_is_previous_output [OF r h] r h show ?thesis by simp
qed

section \<open>The gate\<close>

text \<open>
  C3 (safety). A barrier the chain has passed had its closure number covered by the
  number of openings: no closure is passed before enough \<open>openQueue\<close> calls.
\<close>

theorem barrier_passed_only_when_opened:
  assumes "reachable q" and "k < position q" and "pipeline q ! k = Closure n"
  shows "n \<le> numberOfOpenings q"
  using assms by (rule reachable_passed)

theorem barrier_passed_only_when_opened_witness:
  "reachable (demo_state [CloseAndGetResult, Open, ChainAdvance] False) \<and>
   0 < position (demo_state [CloseAndGetResult, Open, ChainAdvance] False) \<and>
   pipeline (demo_state [CloseAndGetResult, Open, ChainAdvance] False) ! 0 = Closure 1 \<and>
   1 \<le> numberOfOpenings (demo_state [CloseAndGetResult, Open, ChainAdvance] False)"
proof -
  have r: "reachable (demo_state [CloseAndGetResult, Open, ChainAdvance] False)"
    unfolding demo_state_def by (rule reachable_the_run) (simp add: queue_defs)
  have k: "0 < position (demo_state [CloseAndGetResult, Open, ChainAdvance] False)"
    and st: "pipeline (demo_state [CloseAndGetResult, Open, ChainAdvance] False) ! 0 = Closure 1"
    by (simp_all add: demo_state_def queue_defs)
  from barrier_passed_only_when_opened [OF r k st] r k st show ?thesis by simp
qed

text \<open>
  C4 (invariant). The chain is suspended at a barrier only while the queue reports
  closed, and then the closures are ahead of the openings.
\<close>

theorem waiting_barrier_implies_closed:
  assumes "reachable q" and "headPhase q = WaitingForOpen"
  shows "queueIsClosed q \<and> numberOfOpenings q < numberOfClosures q"
proof -
  note I = reachable_inv_parts [OF assms(1)]
  obtain n x where st: "pipeline q ! position q = Closure n" and "current q = Fulfilled x"
    and lt: "numberOfOpenings q < n"
    using I(2) assms(2) by (auto simp: head_ok_def dest: phase_ok_waiting)
  have "position q < length (pipeline q)"
    using shape_ok_position(3) [OF I(1)] assms(2) by simp
  with st have "Closure n \<in> set (pipeline q)" by (metis nth_mem)
  then have "n \<le> numberOfClosures q" using I(5) by (rule closures_ok_closure_le)
  with lt I(5) show ?thesis by (auto simp: closures_ok_def gate_ok_def split: if_splits)
qed

theorem waiting_barrier_implies_closed_witness:
  "reachable (demo_state [CloseAndGetResult, ChainAdvance] False) \<and>
   headPhase (demo_state [CloseAndGetResult, ChainAdvance] False) = WaitingForOpen \<and>
   queueIsClosed (demo_state [CloseAndGetResult, ChainAdvance] False)"
proof -
  have r: "reachable (demo_state [CloseAndGetResult, ChainAdvance] False)"
    unfolding demo_state_def by (rule reachable_the_run) (simp add: queue_defs)
  have w: "headPhase (demo_state [CloseAndGetResult, ChainAdvance] False) = WaitingForOpen"
    by (simp add: demo_state_def queue_defs)
  from waiting_barrier_implies_closed [OF r w] r w show ?thesis by simp
qed

text \<open>
  C5 (bounds). The opening counter is at most one ahead of the closure counter, and
  while the queue is closed it does not exceed it.
\<close>

theorem gate_counter_bounds:
  assumes "reachable q"
  shows "numberOfOpenings q \<le> Suc (numberOfClosures q) \<and>
         (queueIsClosed q \<longrightarrow> numberOfOpenings q \<le> numberOfClosures q)"
  using reachable_inv_parts(5) [OF assms] by (simp add: closures_ok_def gate_ok_def)

theorem gate_counter_bounds_witness:
  "reachable (demo_state [Open] False) \<and>
   numberOfOpenings (demo_state [Open] False) = Suc (numberOfClosures (demo_state [Open] False))"
proof -
  have r: "reachable (demo_state [Open] False)"
    unfolding demo_state_def by (rule reachable_the_run) (simp add: queue_defs)
  from gate_counter_bounds [OF r] r show ?thesis by (simp add: demo_state_def queue_defs)
qed

text \<open>
  C6 (functional). Close, then open: \<open>openQueue\<close> releases the barrier the chain
  waits at; the value passes through unchanged, the chain moves on, and the released
  closure number is now covered by the openings.
\<close>

theorem open_releases_waiting_barrier:
  assumes "reachable q" and "headPhase q = WaitingForOpen"
  shows "outputs (openQueue q) = outputs q @ [current q] \<and> headPhase (openQueue q) = Idle \<and>
         closure_no (pipeline q ! position q) \<le> numberOfOpenings (openQueue q)"
proof -
  note I = reachable_inv_parts [OF assms(1)]
  have o: "outputs (openQueue q) = outputs q @ [current q]" and ph: "headPhase (openQueue q) = Idle"
    using assms(2) by (simp_all add: openQueue_outputs openQueue_phase current_def)
  obtain n x where st: "pipeline q ! position q = Closure n"
    using I(2) assms(2) by (auto simp: head_ok_def dest: phase_ok_waiting)
  have r': "reachable (openQueue q)"
    using assms(1) by (rule reachable.step [where e = Open]) simp
  have "position q < position (openQueue q)"
    using o shape_ok_position(1) [OF I(1)] by (simp add: position_def)
  with reachable_passed [OF r', of "position q" n] st have "n \<le> numberOfOpenings (openQueue q)"
    by simp
  with o ph st show ?thesis by simp
qed

theorem open_releases_waiting_barrier_witness:
  "reachable (demo_state [CloseAndGetResult, ChainAdvance] False) \<and>
   headPhase (demo_state [CloseAndGetResult, ChainAdvance] False) = WaitingForOpen \<and>
   outputs (openQueue (demo_state [CloseAndGetResult, ChainAdvance] False)) = [Fulfilled 0, Fulfilled 0]"
proof -
  have r: "reachable (demo_state [CloseAndGetResult, ChainAdvance] False)"
    unfolding demo_state_def by (rule reachable_the_run) (simp add: queue_defs)
  have w: "headPhase (demo_state [CloseAndGetResult, ChainAdvance] False) = WaitingForOpen"
    by (simp add: demo_state_def queue_defs)
  from open_releases_waiting_barrier [OF r w] r w show ?thesis
    by (simp add: demo_state_def queue_defs)
qed

section \<open>Completion and draining\<close>

text \<open>
  C7 (invariant). The completed-task counter never exceeds the submitted-task counter.
\<close>

theorem tasks_complete_le_queue_length:
  assumes "reachable q"
  shows "tasksComplete q \<le> queueLength q"
  using reachable_inv_parts(4) [OF assms] by (rule counts_ok_le)

theorem tasks_complete_le_queue_length_witness:
  "reachable (demo_state [plus_task 1, plus_task 2, ChainAdvance, PromiseSettle] False) \<and>
   tasksComplete (demo_state [plus_task 1, plus_task 2, ChainAdvance, PromiseSettle] False) = 1 \<and>
   queueLength (demo_state [plus_task 1, plus_task 2, ChainAdvance, PromiseSettle] False) = 2"
proof -
  have r: "reachable (demo_state [plus_task 1, plus_task 2, ChainAdvance, PromiseSettle] False)"
    unfolding demo_state_def by (rule reachable_the_run) (simp add: plus_task_def queue_defs)
  from tasks_complete_le_queue_length [OF r] r show ?thesis
    by (simp add: demo_state_def plus_task_def queue_defs)
qed

text \<open>
  C8 (safety). A drain request of \<open>getFinalResultAndCloseWhenAllTasksComplete\<close> that
  has fired names a position of the chain before which every task has completed
  with a fulfilled value: it never resolves while a task it covers is outstanding.
\<close>

theorem drain_fires_after_all_tasks:
  assumes "reachable q" and "w < length (futures q)" and "futures q ! w = DrainFired n"
    and "k < n" and "is_task (pipeline q ! k)"
  shows "Suc k < length (outputs q) \<and> is_fulfilled (outputs q ! Suc k)"
  using reachable_inv_parts(7) [OF assms(1)] assms(2-5)
  by (auto simp: drained_ok_def task_settled_def)

theorem drain_fires_after_all_tasks_witness:
  "reachable (demo_state [plus_task 5, DrainThenClose, ChainAdvance, PromiseSettle] False) \<and>
   futures (demo_state [plus_task 5, DrainThenClose, ChainAdvance, PromiseSettle] False) = [DrainFired 1] \<and>
   outputs (demo_state [plus_task 5, DrainThenClose, ChainAdvance, PromiseSettle] False) ! 1 = Fulfilled 5"
proof -
  have r: "reachable (demo_state [plus_task 5, DrainThenClose, ChainAdvance, PromiseSettle] False)"
    unfolding demo_state_def by (rule reachable_the_run) (simp add: plus_task_def queue_defs)
  have f: "futures (demo_state [plus_task 5, DrainThenClose, ChainAdvance, PromiseSettle] False) = [DrainFired 1]"
    by (simp add: demo_state_def plus_task_def queue_defs)
  have t: "is_task (pipeline (demo_state [plus_task 5, DrainThenClose, ChainAdvance, PromiseSettle] False) ! 0)"
    by (simp add: demo_state_def plus_task_def queue_defs)
  from drain_fires_after_all_tasks [OF r _ _ _ t, of 0 1] r f show ?thesis
    by (simp add: demo_state_def plus_task_def queue_defs)
qed

section \<open>Openings banked ahead of closures\<close>

text \<open>
  C11 (bounds). Two calls of \<open>openQueue\<close> after one \<open>closeQueue\<close> on an open queue
  with balanced counters leave the opening counter one ahead of the closure counter:
  the guard \<open>numberOfOpenings <= numberOfClosures\<close> lets the second call count.
\<close>

theorem second_open_banks_opening:
  assumes "\<not> queueIsClosed q" and "numberOfOpenings q = numberOfClosures q"
  shows "numberOfClosures (openQueue (openQueue (closeQueue q))) = Suc (numberOfClosures q) \<and>
         numberOfOpenings (openQueue (openQueue (closeQueue q))) = Suc (Suc (numberOfClosures q))"
  using assms by (simp add: openQueue_openings closeQueue_closures)

theorem second_open_banks_opening_witness:
  "numberOfClosures (openQueue (openQueue (closeQueue (new_queue (0::int) False :: (int, int, unit) queue)))) = 1 \<and>
   numberOfOpenings (openQueue (openQueue (closeQueue (new_queue (0::int) False :: (int, int, unit) queue)))) = 2"
  using second_open_banks_opening [of "new_queue (0::int) False :: (int, int, unit) queue"]
  by (simp add: new_queue_def)



section \<open>A queue built closed\<close>

text \<open>
  C13 (safety). A queue constructed with \<open>startQueueClosed\<close> runs nothing before
  \<open>openQueue\<close>: whatever is submitted and however the chain progresses, as long as
  no \<open>openQueue\<close> call occurs the chain still holds only its initial value and no
  task has completed.
\<close>

theorem start_closed_runs_nothing_until_open:
  assumes "run es (new_queue v True) = Some q" and "\<not> list_ex is_open_event es"
  shows "outputs q = [Fulfilled v] \<and> tasksComplete q = 0"
proof -
  have r: "reachable q" using assms(1) by (rule reachable_run_new)
  have o: "numberOfOpenings q = 0"
    using run_openings [OF assms] by (simp add: new_queue_def)
  obtain zs where p: "pipeline q = Closure 1 # zs"
    using run_grows(1) [OF assms(1)] by (auto simp: new_queue_def closeQueue_def)
  obtain ys where ys: "outputs q = Fulfilled v # ys"
    using run_grows(2) [OF assms(1)] by (auto simp: new_queue_def)
  have "ys = []"
  proof (rule ccontr)
    assume "ys \<noteq> []"
    then have "0 < position q" using ys by (simp add: position_def)
    from reachable_passed [OF r this, of 1] p o show False by simp
  qed
  with ys have out: "outputs q = [Fulfilled v]" by simp
  with reachable_inv_parts(4) [OF r] show ?thesis by (simp add: counts_ok_def)
qed

theorem start_closed_runs_nothing_until_open_witness:
  "run [plus_task 1, ChainAdvance] (new_queue 0 True) \<noteq> None \<and>
   outputs (demo_state [plus_task 1, ChainAdvance] True) = [Fulfilled 0] \<and>
   tasksComplete (demo_state [plus_task 1, ChainAdvance] True) = 0"
proof -
  have e: "run [plus_task 1, ChainAdvance] (new_queue 0 True) = Some (demo_state [plus_task 1, ChainAdvance] True)"
    by (simp add: demo_state_def plus_task_def queue_defs)
  have n: "\<not> list_ex is_open_event [plus_task 1, ChainAdvance :: (int, int, unit) event]"
    by (simp add: plus_task_def)
  from start_closed_runs_nothing_until_open [OF e n] e show ?thesis by simp
qed

section \<open>The result of \<open>closeQueueAndGetFinalResult\<close>\<close>

text \<open>
  C14 (refinement). \<open>closeQueueAndGetFinalResult\<close> returns the result of exactly the
  steps submitted before the call: whatever happens afterwards, if the returned
  promise settles, its value is the sequential composition of those steps applied
  to the initial value (\<open>chain_trace\<close>), which settles at every one of them.
\<close>

theorem close_result_is_sequential_value:
  assumes "reachable q" and "closeQueueAndGetFinalResult q = (q1, w)" and "run es q1 = Some q2"
    and "future_result q2 w = Some r"
  shows "length (pipeline q) < length (chain_trace (hd (outputs q)) (pipeline q)) \<and>
         r = chain_trace (hd (outputs q)) (pipeline q) ! length (pipeline q)"
proof -
  let ?L = "length (pipeline q)"
  have q1: "reachable q1" using reachable.step [OF assms(1), of CloseAndGetResult] assms(2) by simp
  have w: "w < length (futures q1)" "futures q1 ! w = Snapshot ?L"
    using assms(2) by (auto simp: closeQueueAndGetFinalResult_def Let_def)
  from run_futures [OF q1 assms(3)] w have "futures q2 ! w = Snapshot ?L" "w < length (futures q2)" by simp_all
  with assms(4) have L: "?L < length (outputs q2)" and rv: "r = outputs q2 ! ?L"
    by (auto simp: future_result_def split: if_splits)
  have r2: "reachable q2" using reachable_run [OF q1 assms(3)] .
  note I2 = reachable_inv_parts [OF r2]
  obtain zs where zs: "pipeline q2 = pipeline q @ zs"
    using run_grows(1) [OF assms(3)] closeQueue_pipeline_prefix [of q] assms(2)
    by (metis append.assoc closeQueueAndGetFinalResult_frame(1) fst_conv)
  obtain ys where ys: "outputs q2 = outputs q @ ys"
    using run_grows(2) [OF assms(3)] assms(2) by (metis closeQueueAndGetFinalResult_frame(2) fst_conv)
  have ne: "outputs q \<noteq> []"
    using shape_ok_position(1) [OF reachable_inv_parts(1) [OF assms(1)]] by auto
  have "outputs q2 = take (length (outputs q2)) (chain_trace (hd (outputs q2)) (pipeline q2))"
    using I2(3) I2(1) shape_ok_position [OF I2(1)] ne ys
    by (intro chained_prefix) (auto simp: fifo_ok_def)
  then have "outputs q2 ! ?L = chain_trace (hd (outputs q)) (pipeline q @ zs) ! ?L"
    and "?L < length (chain_trace (hd (outputs q)) (pipeline q @ zs))"
    using L ne ys zs by (metis hd_append2 nth_take, metis hd_append2 length_take min_less_iff_conj)
  with chain_trace_append_nth [of ?L "pipeline q" "hd (outputs q)" zs] rv show ?thesis by simp
qed

theorem close_result_is_sequential_value_witness:
  "closeQueueAndGetFinalResult (demo_state [add_task 2, plus_task 5] False)
     = (fst (closeQueueAndGetFinalResult (demo_state [add_task 2, plus_task 5] False)), 0) \<and>
   run [plus_task 7, ChainAdvance, TimerFire, ChainAdvance, PromiseSettle, Open, ChainAdvance]
     (fst (closeQueueAndGetFinalResult (demo_state [add_task 2, plus_task 5] False))) \<noteq> None \<and>
   future_result (the (run [plus_task 7, ChainAdvance, TimerFire, ChainAdvance, PromiseSettle, Open, ChainAdvance]
     (fst (closeQueueAndGetFinalResult (demo_state [add_task 2, plus_task 5] False))))) 0 = Some (Fulfilled 7)"
proof -
  let ?q = "demo_state [add_task 2, plus_task 5] False"
  let ?q1 = "fst (closeQueueAndGetFinalResult ?q)"
  let ?es = "[plus_task 7, ChainAdvance, TimerFire, ChainAdvance, PromiseSettle, Open, ChainAdvance]"
  have r: "reachable ?q"
    unfolding demo_state_def by (rule reachable_the_run) (simp add: plus_task_def add_task_def queue_defs)
  have c: "closeQueueAndGetFinalResult ?q = (?q1, 0)"
    by (simp add: demo_state_def plus_task_def add_task_def queue_defs)
  have e: "run ?es ?q1 = Some (the (run ?es ?q1))"
    by (simp add: demo_state_def plus_task_def add_task_def queue_defs)
  have f: "future_result (the (run ?es ?q1)) 0 = Some (Fulfilled 7)"
    by (simp add: demo_state_def plus_task_def add_task_def queue_defs)
  have n: "run ?es ?q1 \<noteq> None" using e by (metis option.distinct(1))
  from close_result_is_sequential_value [OF r c e f] c n f show ?thesis by blast
qed

section \<open>Rejected tasks\<close>

text \<open>
  C15 (error). A rejection stalls the chain at the first synchronous task or barrier
  after it: when the chain's value is rejected and its head is such a step (whose
  \<open>new Promise\<close> wrapper has no rejection handler), no call and no progress ever
  settles another value of the chain.
\<close>

theorem rejected_chain_stalls:
  assumes "reachable q" and "current q = Rejected" and "position q < length (pipeline q)"
    and "\<not> passes_rejection (pipeline q ! position q)" and "run es q = Some q'"
  shows "outputs q' = outputs q"
  using assms
proof (induction es arbitrary: q)
  case Nil
  then show ?case by simp
next
  case (Cons e es)
  then obtain q1 where e: "exec_event e q = Some q1" and r: "run es q1 = Some q'"
    by (auto split: option.splits)
  obtain zs where o: "outputs q1 = outputs q" and p: "pipeline q1 = pipeline q @ zs"
    using exec_event_rejected_head [OF Cons.prems(1,2,4) e] by blast
  have "position q1 = position q" "current q1 = current q" using o by (simp_all add: position_def current_def)
  with Cons.IH [OF reachable.step [OF Cons.prems(1) e]] Cons.prems(2-4) r o p show ?case
    by (simp add: nth_append)
qed

theorem rejected_chain_stalls_witness:
  "reachable (demo_state [failing_task, add_task 1, ChainAdvance, PromiseSettle] False) \<and>
   current (demo_state [failing_task, add_task 1, ChainAdvance, PromiseSettle] False) = Rejected \<and>
   run [ChainAdvance, Open, plus_task 2, CloseAndGetResult, Open]
     (demo_state [failing_task, add_task 1, ChainAdvance, PromiseSettle] False) \<noteq> None \<and>
   outputs (the (run [ChainAdvance, Open, plus_task 2, CloseAndGetResult, Open]
     (demo_state [failing_task, add_task 1, ChainAdvance, PromiseSettle] False))) = [Fulfilled 0, Rejected]"
proof -
  let ?q = "demo_state [failing_task, add_task 1, ChainAdvance, PromiseSettle] False"
  let ?es = "[ChainAdvance, Open, plus_task 2, CloseAndGetResult, Open]"
  have r: "reachable ?q"
    unfolding demo_state_def by (rule reachable_the_run) (simp add: failing_task_def add_task_def queue_defs)
  have h: "current ?q = Rejected" "position ?q < length (pipeline ?q)"
    "\<not> passes_rejection (pipeline ?q ! position ?q)" and o: "outputs ?q = [Fulfilled 0, Rejected]"
    by (simp_all add: demo_state_def failing_task_def add_task_def queue_defs)
  have e: "run ?es ?q = Some (the (run ?es ?q))"
    by (simp add: demo_state_def failing_task_def add_task_def plus_task_def queue_defs)
  have n: "run ?es ?q \<noteq> None" using e by (metis option.distinct(1))
  from rejected_chain_stalls [OF r h e] r h(1) n o show ?thesis by simp
qed

text \<open>
  C16 (error). A rejected task blocks draining for good: once a task's step has
  settled rejected, in every later state fewer tasks are complete than were
  submitted, so \<open>queueComplete\<close> never emits and a pending
  \<open>getFinalResultAndCloseWhenAllTasksComplete\<close> never fires.
\<close>

theorem rejected_task_blocks_drain:
  assumes "reachable q" and "run es q = Some q'"
    and "Suc k < length (outputs q)" and "outputs q ! Suc k = Rejected" and "is_task (pipeline q ! k)"
  shows "tasksComplete q' < queueLength q'"
proof -
  have r': "reachable q'" using assms(1,2) by (rule reachable_run)
  note I = reachable_inv_parts [OF r']
  obtain ys where ys: "outputs q' = outputs q @ ys" using run_grows(2) [OF assms(2)] by blast
  obtain zs where zs: "pipeline q' = pipeline q @ zs" using run_grows(1) [OF assms(2)] by blast
  have k: "k < length (pipeline q)"
    using assms(3) reachable_inv_parts(1) [OF assms(1)] by (simp add: shape_ok_def)
  show ?thesis
    by (rule counts_ok_unfulfilled_task [OF I(4) I(1), of k]) (use assms(3-5) ys zs k in \<open>simp_all add: nth_append\<close>)
qed

theorem rejected_task_blocks_drain_witness:
  "tasksComplete (the (run [plus_task 3, DrainThenClose, ChainAdvance]
      (demo_state [failing_task, ChainAdvance, PromiseSettle] False))) = 0 \<and>
   queueLength (the (run [plus_task 3, DrainThenClose, ChainAdvance]
      (demo_state [failing_task, ChainAdvance, PromiseSettle] False))) = 2"
proof -
  let ?q = "demo_state [failing_task, ChainAdvance, PromiseSettle] False"
  have r: "reachable ?q"
    unfolding demo_state_def by (rule reachable_the_run) (simp add: failing_task_def queue_defs)
  have e: "run [plus_task 3, DrainThenClose, ChainAdvance] ?q
      = Some (the (run [plus_task 3, DrainThenClose, ChainAdvance] ?q))"
    by (simp add: demo_state_def failing_task_def plus_task_def queue_defs)
  have o: "Suc 0 < length (outputs ?q)" "outputs ?q ! Suc 0 = Rejected" "is_task (pipeline ?q ! 0)"
    by (simp_all add: demo_state_def failing_task_def queue_defs)
  from rejected_task_blocks_drain [OF r e o] show ?thesis
    by (simp add: demo_state_def failing_task_def plus_task_def queue_defs)
qed

section \<open>Subscriptions and a second drain request\<close>

text \<open>
  C17 (invariant). Barriers never unsubscribe: every barrier the chain has passed
  is still among the subscribers of \<open>openQueueSignal\<close> (line 105 subscribes in every
  case and nothing unsubscribes).
\<close>

theorem passed_barriers_stay_subscribed:
  assumes "reachable q" and "k < position q" and "pipeline q ! k = Closure n"
  shows "n \<in> set (openSubscribers q)"
proof -
  note I = reachable_inv_parts [OF assms(1)]
  have "k < length (pipeline q)" using assms(2) shape_ok_position(2) [OF I(1)] by simp
  with assms(2,3) have "Closure n \<in> set (take (position q) (pipeline q))"
    by (metis in_set_conv_nth length_take min_less_iff_conj nth_take)
  then have "n \<in> set (map closure_no (filter is_closure (take (position q) (pipeline q))))"
    by force
  with I(8) show ?thesis by (simp add: subscribers_ok_def)
qed

theorem passed_barriers_stay_subscribed_witness:
  "reachable (demo_state [CloseAndGetResult, Open, ChainAdvance, CloseAndGetResult, Open, ChainAdvance] False) \<and>
   openSubscribers (demo_state [CloseAndGetResult, Open, ChainAdvance, CloseAndGetResult, Open, ChainAdvance] False) = [1, 2]"
proof -
  let ?q = "demo_state [CloseAndGetResult, Open, ChainAdvance, CloseAndGetResult, Open, ChainAdvance] False"
  have r: "reachable ?q"
    unfolding demo_state_def by (rule reachable_the_run) (simp add: queue_defs)
  have k: "0 < position ?q" "pipeline ?q ! 0 = Closure 1" "1 < position ?q" "pipeline ?q ! 1 = Closure 2"
    by (simp_all add: demo_state_def queue_defs)
  from passed_barriers_stay_subscribed [OF r k(1,2)] passed_barriers_stay_subscribed [OF r k(3,4)] r
  show ?thesis by (simp add: demo_state_def queue_defs)
qed

text \<open>
  C18 (functional). Two drain requests pending at once: when the last task completes,
  the first request captures the chain up to that task and closes the queue; the
  second captures the chain after the barrier the first inserted, and that barrier
  is beyond the openings, so (by C3) the second request cannot resolve before a
  further \<open>openQueue\<close>.
\<close>

theorem second_drain_waits_behind_first_barrier:
  assumes "reachable q" and "\<not> IsClosed q" and "numberOfOpenings q \<le> numberOfClosures q"
    and "drainWaiters q = w1 # w2 # ws" and "Suc (tasksComplete q) = queueLength q"
  shows "futures (registerTaskCompletion q) ! w1 = DrainFired (length (pipeline q)) \<and>
         futures (registerTaskCompletion q) ! w2 = DrainFired (Suc (length (pipeline q))) \<and>
         pipeline (registerTaskCompletion q) ! length (pipeline q) = Closure (Suc (numberOfClosures q)) \<and>
         numberOfOpenings (registerTaskCompletion q) < Suc (numberOfClosures q)"
proof -
  have f: "distinct (w1 # w2 # ws)" "w1 < length (futures q)" "w2 < length (futures q)"
    using reachable_inv_parts(6) [OF assms(1)] assms(4) by (auto simp: futures_ok_def)
  let ?q3 = "closeQueue (q\<lparr>tasksComplete := Suc (tasksComplete q), drainWaiters := w2 # ws,
               futures := (futures q)[w1 := DrainFired (length (pipeline q))]\<rparr>)"
  let ?q4 = "closeQueue (?q3\<lparr>drainWaiters := ws,
               futures := (futures ?q3)[w2 := DrainFired (length (pipeline ?q3))]\<rparr>)"
  have rt: "registerTaskCompletion q = fireDrainWaiters ws ?q4"
    using assms(4,5) by (simp add: registerTaskCompletion_def Let_def)
  have c: "\<not> queueIsClosed q" using assms(2) by (simp add: IsClosed_def)
  have p3: "pipeline ?q3 = pipeline q @ [Closure (Suc (numberOfClosures q))]"
    using c by (simp add: closeQueue_open)
  have q4: "futures ?q4 ! w1 = DrainFired (length (pipeline q))"
    "futures ?q4 ! w2 = DrainFired (Suc (length (pipeline q)))"
    "pipeline ?q4 = pipeline q @ [Closure (Suc (numberOfClosures q))]"
    using f p3 by simp_all
  obtain zs where "pipeline (registerTaskCompletion q) = pipeline ?q4 @ zs"
    using fireDrainWaiters_pipeline rt by metis
  with q4 f rt assms(3) show ?thesis by (simp add: fireDrainWaiters_futures_other nth_append)
qed

theorem second_drain_waits_behind_first_barrier_witness:
  "reachable (demo_state [plus_task 1, DrainThenClose, DrainThenClose, ChainAdvance] False) \<and>
   drainWaiters (demo_state [plus_task 1, DrainThenClose, DrainThenClose, ChainAdvance] False) = [0, 1] \<and>
   futures (registerTaskCompletion (demo_state [plus_task 1, DrainThenClose, DrainThenClose, ChainAdvance] False)) ! 0 = DrainFired 1 \<and>
   futures (registerTaskCompletion (demo_state [plus_task 1, DrainThenClose, DrainThenClose, ChainAdvance] False)) ! 1 = DrainFired 2 \<and>
   pipeline (registerTaskCompletion (demo_state [plus_task 1, DrainThenClose, DrainThenClose, ChainAdvance] False)) ! 1 = Closure 1 \<and>
   numberOfOpenings (registerTaskCompletion (demo_state [plus_task 1, DrainThenClose, DrainThenClose, ChainAdvance] False)) = 0"
proof -
  let ?q = "demo_state [plus_task 1, DrainThenClose, DrainThenClose, ChainAdvance] False"
  have r: "reachable ?q"
    unfolding demo_state_def by (rule reachable_the_run) (simp add: plus_task_def queue_defs)
  have h: "\<not> IsClosed ?q" "numberOfOpenings ?q \<le> numberOfClosures ?q" "drainWaiters ?q = [0, 1]"
    "Suc (tasksComplete ?q) = queueLength ?q" and l: "length (pipeline ?q) = 1" "numberOfClosures ?q = 0"
    "numberOfOpenings ?q = 0"
    by (simp_all add: demo_state_def plus_task_def IsClosed_def queue_defs)
  from second_drain_waits_behind_first_barrier [OF r h(1,2) _ h(4), of 0 1 "[]"] r h(3) l
  show ?thesis by simp
qed

section \<open>The component that drives the queue\<close>

text \<open>
  C19 (invariant). The total on display is the value of the chain: in every reachable
  state of the component, the chain's current value is fulfilled with
  \<open>runningTotal\<close>. Timers from before a reset never publish (the \<open>resetCounter\<close>
  check of \<open>promiseToPushToQueue\<close>), and the one timer of the current generation
  publishes the value its task settles with.
\<close>

theorem running_total_is_chain_value:
  assumes "app_reachable s"
  shows "current (asyncChainQueue s) = Fulfilled (runningTotal s)"
  using app_invD(3) [OF app_reachable_inv [OF assms]] .

theorem running_total_is_chain_value_witness:
  "app_reachable (demo_app [EditTaskValue (Some 5), EditTaskTime (Some 1), Submit, Reset, EditTaskValue (Some 2), EditTaskTime (Some 0), Submit, TimerFires 0, TimerFires 0]) \<and>
   runningTotal (demo_app [EditTaskValue (Some 5), EditTaskTime (Some 1), Submit, Reset, EditTaskValue (Some 2), EditTaskTime (Some 0), Submit, TimerFires 0, TimerFires 0]) = 2 \<and>
   current (asyncChainQueue (demo_app [EditTaskValue (Some 5), EditTaskTime (Some 1), Submit, Reset, EditTaskValue (Some 2), EditTaskTime (Some 0), Submit, TimerFires 0, TimerFires 0])) = Fulfilled 2"
proof -
  have r: "app_reachable (demo_app [EditTaskValue (Some 5), EditTaskTime (Some 1), Submit, Reset, EditTaskValue (Some 2), EditTaskTime (Some 0), Submit, TimerFires 0, TimerFires 0])"
    unfolding demo_app_def by (rule app_reachable_the_run) (simp add: app_defs queue_defs Let_def)
  have t: "runningTotal (demo_app [EditTaskValue (Some 5), EditTaskTime (Some 1), Submit, Reset, EditTaskValue (Some 2), EditTaskTime (Some 0), Submit, TimerFires 0, TimerFires 0]) = 2"
    by (simp add: demo_app_def app_defs queue_defs Let_def)
  from running_total_is_chain_value [OF r] r t show ?thesis by simp
qed

text \<open>
  C20 (safety). The reset token works: a timer of \<open>promiseToPushToQueue\<close> started
  before the last \<open>reset\<close> changes neither the total on display nor the new queue
  when it fires.
\<close>

theorem stale_timer_changes_nothing:
  assumes "app_reachable s" and "k < length (timers s)" and "fst (timers s ! k) < resetCounter s"
    and "app_step (TimerFires k) s = Some s'"
  shows "runningTotal s' = runningTotal s \<and> asyncChainQueue s' = asyncChainQueue s"
proof -
  obtain g v where t: "timers s ! k = (g, v)" by fastforce
  let ?s1 = "s\<lparr>timers := take k (timers s) @ drop (Suc k) (timers s)\<rparr>"
  have "timerCallback k s = Some ?s1" using assms(2,3) t by (simp add: timerCallback_def Let_def)
  then have s': "s' = microtasks ?s1" using assms(4) by (simp add: app_step_def)
  have "chainAdvances (asyncChainQueue ?s1) = None" using app_reachable_quiescent [OF assms(1)] by simp
  from microtasks_idle [OF this] s' show ?thesis by simp
qed

theorem stale_timer_changes_nothing_witness:
  "timers (demo_app [EditTaskValue (Some 5), EditTaskTime (Some 1), Submit, Reset, EditTaskValue (Some 2), EditTaskTime (Some 0), Submit]) = [(0, 5), (1, 2)] \<and>
   runningTotal (demo_app [EditTaskValue (Some 5), EditTaskTime (Some 1), Submit, Reset, EditTaskValue (Some 2), EditTaskTime (Some 0), Submit, TimerFires 0]) = 0 \<and>
   asyncChainQueue (demo_app [EditTaskValue (Some 5), EditTaskTime (Some 1), Submit, Reset, EditTaskValue (Some 2), EditTaskTime (Some 0), Submit, TimerFires 0]) =
     asyncChainQueue (demo_app [EditTaskValue (Some 5), EditTaskTime (Some 1), Submit, Reset, EditTaskValue (Some 2), EditTaskTime (Some 0), Submit])"
proof -
  let ?s = "demo_app [EditTaskValue (Some 5), EditTaskTime (Some 1), Submit, Reset, EditTaskValue (Some 2), EditTaskTime (Some 0), Submit]"
  have r: "app_reachable ?s"
    unfolding demo_app_def by (rule app_reachable_the_run) (simp add: app_defs queue_defs Let_def)
  have t: "timers ?s = [(0, 5), (1, 2)]" and c: "resetCounter ?s = 1" and z: "runningTotal ?s = 0"
    by (simp_all add: demo_app_def app_defs queue_defs Let_def)
  have e: "app_step (TimerFires 0) ?s = Some (demo_app [EditTaskValue (Some 5), EditTaskTime (Some 1), Submit, Reset, EditTaskValue (Some 2), EditTaskTime (Some 0), Submit, TimerFires 0])"
    by (simp add: demo_app_def app_defs queue_defs Let_def)
  from stale_timer_changes_nothing [OF r _ _ e] t c z show ?thesis by simp
qed

text \<open>
  C21 (invariant). The final message is shown only while the queue is closed: the
  halting callbacks show it only when \<open>IsClosed\<close>, and reopening hides it.
\<close>

theorem final_message_only_when_closed:
  assumes "app_reachable s" and "finalMessageVisible s"
  shows "QueueIsClosed s"
  using app_invD(6) [OF app_reachable_inv [OF assms(1)]] assms(2)
  by (simp add: QueueIsClosed_def IsClosed_def)

theorem final_message_only_when_closed_witness:
  "app_reachable (demo_app [EditTaskValue (Some 1), EditTaskTime (Some 0), Submit, HaltCloseThenFinish, TimerFires 0]) \<and>
   finalMessageVisible (demo_app [EditTaskValue (Some 1), EditTaskTime (Some 0), Submit, HaltCloseThenFinish, TimerFires 0]) \<and>
   QueueIsClosed (demo_app [EditTaskValue (Some 1), EditTaskTime (Some 0), Submit, HaltCloseThenFinish, TimerFires 0])"
proof -
  have r: "app_reachable (demo_app [EditTaskValue (Some 1), EditTaskTime (Some 0), Submit, HaltCloseThenFinish, TimerFires 0])"
    unfolding demo_app_def by (rule app_reachable_the_run) (simp add: app_defs queue_defs Let_def)
  have f: "finalMessageVisible (demo_app [EditTaskValue (Some 1), EditTaskTime (Some 0), Submit, HaltCloseThenFinish, TimerFires 0])"
    by (simp add: demo_app_def app_defs queue_defs Let_def IsClosed_def)
  from final_message_only_when_closed [OF r f] r f show ?thesis by simp
qed

section \<open>Liveness of the chain\<close>

text \<open>
  C22 (liveness). The chain does not get stuck on its own: from any reachable state
  whose value is fulfilled, if every barrier of the chain is covered by the openings
  and every asynchronous task fulfils, then scheduling the chain's own steps (the
  head's callback, a timer, a task's settling) settles every step of the chain
  within twice as many scheduler steps as the chain is long.
\<close>

theorem chain_liveness:
  assumes "reachable q" and "is_fulfilled (current q)"
    and "list_all (can_settle (numberOfOpenings q)) (pipeline q)"
  shows "length (pipeline q) < length (outputs (drive (2 * length (pipeline q)) q)) \<and>
         reachable (drive (2 * length (pipeline q)) q)"
proof -
  let ?L = "length (pipeline q)"
  have "?L \<le> position (drive (2 * ?L) q)"
    using assms by (intro drive_settles) (auto simp: list_all_length remaining_def)
  moreover have r: "reachable (drive (2 * ?L) q)" using assms(1) by (rule drive_reachable)
  ultimately show ?thesis using shape_ok_position(1) [OF reachable_inv_parts(1) [OF r]] by simp
qed

theorem chain_liveness_witness:
  "length (outputs (drive 6 (demo_state [plus_task 1, CloseAndGetResult, Open, add_task 2] False))) = 4 \<and>
   last (outputs (drive 6 (demo_state [plus_task 1, CloseAndGetResult, Open, add_task 2] False))) = Fulfilled 3"
proof -
  let ?q = "demo_state [plus_task 1, CloseAndGetResult, Open, add_task 2] False"
  have r: "reachable ?q"
    unfolding demo_state_def by (rule reachable_the_run) (simp add: plus_task_def add_task_def queue_defs)
  have f: "is_fulfilled (current ?q)" and c: "list_all (can_settle (numberOfOpenings ?q)) (pipeline ?q)"
    and l: "length (pipeline ?q) = 3"
    by (simp_all add: demo_state_def plus_task_def add_task_def queue_defs)
  from chain_liveness [OF r f c] l have "3 < length (outputs (drive 6 ?q))" by simp
  then show ?thesis
    by (simp add: demo_state_def plus_task_def add_task_def queue_defs progress_def numeral_eq_Suc)
qed

section \<open>The component's clock\<close>

text \<open>
  C23 (functional). A halting callback records, through \<open>parseFloat(this.Clock)\<close>,
  exactly the time elapsed in seconds: the clock's text always reads back as a
  number, never \<open>NaN\<close>, with no rounding.
\<close>

theorem halt_callback_reads_clock:
  assumes "app_reachable s"
  shows "lastTimeCheck (haltCallback h s) = Some (of_nat (elapsedTime s) / 1000)"
  using parseFloat_Clock [OF app_reachable_elapsed [OF assms]] by (cases h) simp_all

theorem halt_callback_reads_clock_witness:
  "app_reachable (demo_app [Tick, Tick, Tick, EditTaskValue (Some 1), EditTaskTime (Some 0), Submit]) \<and>
   lastTimeCheck (haltCallback CloseThenFinish (demo_app [Tick, Tick, Tick, EditTaskValue (Some 1), EditTaskTime (Some 0), Submit])) = Some (3 / 10)"
proof -
  have r: "app_reachable (demo_app [Tick, Tick, Tick, EditTaskValue (Some 1), EditTaskTime (Some 0), Submit])"
    unfolding demo_app_def by (rule app_reachable_the_run) (simp add: app_defs queue_defs Let_def)
  have e: "elapsedTime (demo_app [Tick, Tick, Tick, EditTaskValue (Some 1), EditTaskTime (Some 0), Submit]) = 300"
    by (simp add: demo_app_def app_defs queue_defs Let_def)
  from halt_callback_reads_clock [OF r, of CloseThenFinish] r e show ?thesis by simp
qed

section \<open>Well-formedness of the queue and the waiting status\<close>

text \<open>
  C24 (type). The barriers of the chain are numbered \<open>1, 2, ..., numberOfClosures\<close>
  in the order they were inserted.
\<close>

theorem barriers_numbered:
  assumes "reachable q"
  shows "map closure_no (filter is_closure (pipeline q)) = [1..<Suc (numberOfClosures q)]"
  using reachable_inv_parts(5) [OF assms] by (simp add: closures_ok_def)

theorem barriers_numbered_witness:
  "reachable (demo_state [CloseAndGetResult, plus_task 1, Open, CloseAndGetResult] False) \<and>
   map closure_no (filter is_closure (pipeline (demo_state [CloseAndGetResult, plus_task 1, Open, CloseAndGetResult] False)))
     = [1, 2]"
proof -
  have r: "reachable (demo_state [CloseAndGetResult, plus_task 1, Open, CloseAndGetResult] False)"
    unfolding demo_state_def by (rule reachable_the_run) (simp add: plus_task_def queue_defs)
  have c: "numberOfClosures (demo_state [CloseAndGetResult, plus_task 1, Open, CloseAndGetResult] False) = 2"
    by (simp add: demo_state_def plus_task_def queue_defs)
  from barriers_numbered [OF r] r c show ?thesis by (simp add: upt_rec)
qed

text \<open>
  C25 (invariant). The waiting status ("Queue is OPEN until it finishes") is set only
  while the callback of a \<open>halt_finishThenClose\<close> request is still attached: it ends
  when that request resolves, or on reopening or reset.
\<close>

theorem waiting_needs_drain_callback:
  assumes "app_reachable s" and "waitingToFinish s"
  shows "\<exists>w. (w, FinishThenClose) \<in> set (haltCallbacks s)"
  using app_reachable_waiting [OF assms(1)] assms(2) by (simp add: waiting_ok_def)

theorem waiting_needs_drain_callback_witness:
  "app_reachable (demo_app [EditTaskValue (Some 1), EditTaskTime (Some 5), Submit, HaltFinishThenClose]) \<and>
   waitingToFinish (demo_app [EditTaskValue (Some 1), EditTaskTime (Some 5), Submit, HaltFinishThenClose]) \<and>
   haltCallbacks (demo_app [EditTaskValue (Some 1), EditTaskTime (Some 5), Submit, HaltFinishThenClose]) = [(0, FinishThenClose)]"
proof -
  have r: "app_reachable (demo_app [EditTaskValue (Some 1), EditTaskTime (Some 5), Submit, HaltFinishThenClose])"
    unfolding demo_app_def by (rule app_reachable_the_run) (simp add: app_defs queue_defs Let_def)
  have w: "waitingToFinish (demo_app [EditTaskValue (Some 1), EditTaskTime (Some 5), Submit, HaltFinishThenClose])"
    by (simp add: demo_app_def app_defs queue_defs Let_def)
  from waiting_needs_drain_callback [OF r w] r w show ?thesis
    by (simp add: demo_app_def app_defs queue_defs Let_def)
qed

end
